theory Spec2Isabelle
  imports Main "HOL-Library.Signed_Division" "HOL-Library.AList" "HOL-Library.Sublist"
begin

section \<open>Go values: errors, panics, requests and responses\<close>

text \<open>
  A Go \<open>error\<close> value is modelled by its message. A call that may panic returns an
  \<open>exec\<close>: either the panic, or the values the call returns. A Go result pair
  \<open>(v, err)\<close> of which exactly one component is set is a sum, \<open>Inl\<close> the error.
\<close>

datatype error = Error string

datatype panic = NilPointerDereference | IndexOutOfRange | MakechanSizeOutOfRange

datatype 'a exec = Panic panic | Return 'a

text \<open>The parts of \<open>http.Request\<close> and \<open>http.Response\<close> that the program reads or writes.\<close>

record request =
  req_Method :: string
  req_URL :: string
  req_Header :: "(string \<times> string list) list"

record response =
  resp_StatusCode :: int
  resp_Request :: request
  resp_Header :: "(string \<times> string list) list"
  resp_Body :: string

text \<open>\<open>MediaData\<close> holds information about extracted images.\<close>

record MediaData =
  URL :: string
  ImageURLs :: "string list"
  StatusCode :: int
  meta :: string

text \<open>The zero value \<open>MediaData{}\<close>.\<close>

definition MediaData_zero :: MediaData where
  "MediaData_zero = \<lparr>URL = [], ImageURLs = [], StatusCode = 0, meta = []\<rparr>"

text \<open>\<open>Sitemap\<close>: the structure the XML sitemap is decoded into.\<close>

record sitemap_url =
  Loc :: string

record Sitemap =
  XMLName :: string
  Urls :: "sitemap_url list"

section \<open>randomUserAgent\<close>

definition userAgents :: "string list" where
  "userAgents =
    [''Mozilla/5.0 (Windows NT 10.0; Win64; x64) AppleWebKit/537.36 (KHTML, like Gecko) Chrome/61.0.3163.100 Safari/537.36'',
     ''Mozilla/5.0 (Macintosh; Intel Mac OS X 10_12_6) AppleWebKit/537.36 (KHTML, like Gecko) Chrome/61.0.3163.100 Safari/537.36'',
     ''Mozilla/5.0 (Windows NT 10.0; Win64; x64; rv:56.0) Gecko/20100101 Firefox/56.0'']"

text \<open>
  \<open>time.Now().Unix()\<close>: the clock reading is a number of nanoseconds since the epoch,
  \<open>Unix\<close> its whole seconds.
\<close>

definition Unix :: "int \<Rightarrow> int" where
  "Unix now = now div 1000000000"

text \<open>
  Indexing a slice: out of range is a run-time panic.
\<close>

definition index_slice :: "'a list \<Rightarrow> int \<Rightarrow> 'a exec" where
  "index_slice xs i =
     (if 0 \<le> i \<and> i < int (length xs) then Return (xs ! nat i) else Panic IndexOutOfRange)"

text \<open>
  The global source of \<open>math/rand\<close> is a state of type \<open>'g\<close>, with the two library
  operations the function calls as parameters: \<open>Seed\<close> gives the state that seeding
  leaves (it replaces the state the source had), and \<open>Int\<close> draws a number and gives
  the next state. Go's \<open>%\<close> is the truncated remainder \<open>smod\<close>.

  The function touches the source twice, and the source is shared by all goroutines; each
  of the two library calls is atomic (the source is locked inside it), the function as a
  whole is not. So the function is given in its two parts: the statement that seeds,
  and the draw with the indexing. \<open>randomUserAgent\<close> is a call that nothing
  interrupts: it takes the clock reading and the state of the source before the call.
\<close>

definition randomUserAgent_seed :: "(int \<Rightarrow> 'g) \<Rightarrow> int \<Rightarrow> 'g \<Rightarrow> 'g" where
  "randomUserAgent_seed rand_Seed now g = rand_Seed (Unix now)"

definition randomUserAgent_draw :: "('g \<Rightarrow> int \<times> 'g) \<Rightarrow> 'g \<Rightarrow> string exec \<times> 'g" where
  "randomUserAgent_draw rand_Int g =
     (let (r, g') = rand_Int g;
          randNum = r smod int (length userAgents)
      in (index_slice userAgents randNum, g'))"

definition randomUserAgent ::
  "(int \<Rightarrow> 'g) \<Rightarrow> ('g \<Rightarrow> int \<times> 'g) \<Rightarrow> int \<Rightarrow> 'g \<Rightarrow> string exec \<times> 'g" where
  "randomUserAgent rand_Seed rand_Int now g =
     randomUserAgent_draw rand_Int (randomUserAgent_seed rand_Seed now g)"

text \<open>
  Two calls from two goroutines that overlap: both have seeded before either draws. The
  result is the pair of the strings that the first and the second call return.
\<close>

definition randomUserAgent_overlapping ::
  "(int \<Rightarrow> 'g) \<Rightarrow> ('g \<Rightarrow> int \<times> 'g) \<Rightarrow> int \<Rightarrow> int \<Rightarrow> 'g \<Rightarrow> string exec \<times> string exec" where
  "randomUserAgent_overlapping rand_Seed rand_Int now1 now2 g =
     (let g1 = randomUserAgent_seed rand_Seed now1 g;
          g2 = randomUserAgent_seed rand_Seed now2 g1;
          (a, g3) = randomUserAgent_draw rand_Int g2;
          (b, g4) = randomUserAgent_draw rand_Int g3
      in (a, b))"

section \<open>makeRequest\<close>

text \<open>\<open>Header.Set\<close>: the key's values are replaced by the single value.\<close>

definition Header_Set ::
  "(string \<times> string list) list \<Rightarrow> string \<Rightarrow> string \<Rightarrow> (string \<times> string list) list" where
  "Header_Set h k v = AList.update k [v] h"

text \<open>
  \<open>makeRequest\<close> sends an HTTP GET request with a random User-Agent header.
  \<open>NewRequest\<close> (\<open>http.NewRequest\<close>: method and URL to the pair \<open>(req, err)\<close>, a
  nil pointer or a nil error being \<open>None\<close>) and \<open>Do\<close> (\<open>client.Do\<close> under the 10
  second timeout: the response, whatever its status code, or the transport error) are the
  library calls, taken as parameters.

  The statements are in the order of the source: the header is set through \<open>req\<close>
  first, which dereferences the pointer, and \<open>err\<close> is tested after that.
\<close>

definition makeRequest ::
  "(string \<Rightarrow> string \<Rightarrow> request option \<times> error option) \<Rightarrow>
   (request \<Rightarrow> error + response) \<Rightarrow>
   (int \<Rightarrow> 'g) \<Rightarrow> ('g \<Rightarrow> int \<times> 'g) \<Rightarrow> int \<Rightarrow> string \<Rightarrow> 'g \<Rightarrow> ((error + response) \<times> 'g) exec" where
  "makeRequest NewRequest Do rand_Seed rand_Int now url g =
     (case NewRequest ''GET'' url of
        (None, err) \<Rightarrow> Panic NilPointerDereference
      | (Some req, err) \<Rightarrow>
          (case randomUserAgent rand_Seed rand_Int now g of
             (Panic p, g') \<Rightarrow> Panic p
           | (Return agent, g') \<Rightarrow>
               (let req' = req\<lparr>req_Header := Header_Set (req_Header req) ''User-Agent'' agent\<rparr>
                in case err of
                     Some e \<Rightarrow> Return (Inl e, g')
                   | None \<Rightarrow>
                       (case Do req' of
                          Inl e \<Rightarrow> Return (Inl e, g')
                        | Inr res \<Rightarrow> Return (Inr res, g')))))"

section \<open>GetMediaData\<close>

text \<open>
  The document tree that \<open>goquery\<close> holds after parsing: an element has a tag, its
  attributes in order and its children in order; every other node (text, comment,
  doctype) is \<open>Other\<close>. A document is the list of the children of its root node.

  Modelled from the spec: the \<open>goquery\<close> operations the function calls are a dependency
  that is not in the sources. \<open>Find\<close> gives the elements below the root that match a
  selector, in document order (a node before its descendants, siblings left to right);
  \<open>Attr\<close> gives the value of the first attribute of that name and whether there is one,
  and on a selection it reads the selection's first node. The two selectors of the source
  are \<open>img\<close> (a tag) and \<open>meta[name^=description]\<close> (a tag with an attribute whose
  value starts with the given text).
\<close>

datatype html_node = Element string "(string \<times> string) list" "html_node list" | Other string

type_synonym document = "html_node list"

datatype selector = Tag string | TagAttrPrefix string string string

definition sel_img :: selector where
  "sel_img = Tag ''img''"

definition sel_meta_description :: selector where
  "sel_meta_description = TagAttrPrefix ''meta'' ''name'' ''description''"

fun is_Element :: "html_node \<Rightarrow> bool" where
  "is_Element (Element t as cs) = True"
| "is_Element (Other s) = False"

fun matches :: "selector \<Rightarrow> html_node \<Rightarrow> bool" where
  "matches (Tag t) (Element t' as cs) = (t' = t)"
| "matches (TagAttrPrefix t k v) (Element t' as cs) =
     (t' = t \<and> list_ex (\<lambda>(k', v'). k' = k \<and> prefix v v') as)"
| "matches sel (Other s) = False"

fun MatchAll :: "selector \<Rightarrow> html_node \<Rightarrow> html_node list" where
  "MatchAll sel (Element t as cs) =
     (if matches sel (Element t as cs) then [Element t as cs] else [])
       @ concat (map (MatchAll sel) cs)"
| "MatchAll sel (Other s) = []"

definition Find :: "document \<Rightarrow> selector \<Rightarrow> html_node list" where
  "Find doc sel = concat (map (MatchAll sel) (filter is_Element doc))"

fun Attr :: "html_node \<Rightarrow> string \<Rightarrow> string option" where
  "Attr (Element t as cs) k = map_of as k"
| "Attr (Other s) k = None"

definition Selection_Attr :: "html_node list \<Rightarrow> string \<Rightarrow> string option" where
  "Selection_Attr nodes k = (case nodes of [] \<Rightarrow> None | n # ns \<Rightarrow> Attr n k)"

text \<open>
  Modelled from the spec: \<open>goquery.NewDocumentFromResponse\<close> parses the body of the
  response into a document and fails when the body cannot be parsed. The HTML parser is
  the parameter \<open>html_Parse\<close>.
\<close>

definition NewDocumentFromResponse ::
  "(string \<Rightarrow> error + document) \<Rightarrow> response \<Rightarrow> error + document" where
  "NewDocumentFromResponse html_Parse resp = html_Parse (resp_Body resp)"

text \<open>
  \<open>GetMediaData\<close> extracts all image URLs from the response. The Go result pair is
  kept as a pair: \<open>(MediaData{}, err)\<close> on failure, \<open>(result, nil)\<close> otherwise. The
  callback of \<open>Each\<close> appends to \<open>imageURLs\<close>; the loop is the fold over the
  selection.
\<close>

definition GetMediaData ::
  "(string \<Rightarrow> error + document) \<Rightarrow> response \<Rightarrow> MediaData \<times> error option" where
  "GetMediaData html_Parse resp =
     (case NewDocumentFromResponse html_Parse resp of
        Inl err \<Rightarrow> (MediaData_zero, Some err)
      | Inr doc \<Rightarrow>
          (let imageURLs =
                 foldl (\<lambda>imageURLs s.
                          case Attr s ''src'' of
                            Some src \<Rightarrow> imageURLs @ [src]
                          | None \<Rightarrow> imageURLs)
                   [] (Find doc sel_img);
               result = \<lparr>URL = req_URL (resp_Request resp),
                         ImageURLs = imageURLs,
                         StatusCode = resp_StatusCode resp,
                         meta = []\<rparr>;
               result = result\<lparr>meta :=
                          (case Selection_Attr (Find doc sel_meta_description) ''content'' of
                             Some v \<Rightarrow> v
                           | None \<Rightarrow> [])\<rparr>
           in (result, None)))"

text \<open>
  The body of a response is a stream, not a value: \<open>goquery.NewDocumentFromResponse\<close>
  reads it to its end and closes it before it returns (\<open>defer res.Body.Close()\<close>), and
  a read from the closed body of an HTTP response fails, so that \<open>html.Parse\<close> returns
  the error of the read. A response object is the response together with the state of
  its body; \<open>resp_Body\<close> is what the body yields while it is unread. A call of
  \<open>GetMediaData\<close> on the object gives the result and the object as the call leaves it.
\<close>

record response_object =
  obj_response :: response
  obj_Body_closed :: bool

definition Body_Parse :: "(string \<Rightarrow> error + document) \<Rightarrow> bool \<Rightarrow> string \<Rightarrow> error + document" where
  "Body_Parse html_Parse closed bytes =
     (if closed then Inl (Error ''http: read on closed response body'') else html_Parse bytes)"

definition GetMediaData_call ::
  "(string \<Rightarrow> error + document) \<Rightarrow> response_object \<Rightarrow>
   (MediaData \<times> error option) \<times> response_object" where
  "GetMediaData_call html_Parse obj =
     (GetMediaData (Body_Parse html_Parse (obj_Body_closed obj)) (obj_response obj),
      obj\<lparr>obj_Body_closed := True\<rparr>)"

text \<open>
  The same two results in the words of the specification, by recursion on the tree:
  the \<open>src\<close> of every \<open>img\<close> element that has one, in document order; and the first
  \<open>meta\<close> element whose \<open>name\<close> starts with \<open>description\<close>.
\<close>

fun spec_image_refs :: "html_node \<Rightarrow> string list"
  and spec_image_refs_list :: "html_node list \<Rightarrow> string list" where
  "spec_image_refs (Element t as cs) =
     (if t = ''img'' then (case map_of as ''src'' of Some v \<Rightarrow> [v] | None \<Rightarrow> []) else [])
       @ spec_image_refs_list cs"
| "spec_image_refs (Other s) = []"
| "spec_image_refs_list [] = []"
| "spec_image_refs_list (n # ns) = spec_image_refs n @ spec_image_refs_list ns"

definition is_description_meta :: "string \<Rightarrow> (string \<times> string) list \<Rightarrow> bool" where
  "is_description_meta t as =
     (t = ''meta'' \<and> list_ex (\<lambda>(k, v). k = ''name'' \<and> prefix ''description'' v) as)"

fun spec_first_meta :: "html_node \<Rightarrow> (string \<times> string) list option"
  and spec_first_meta_list :: "html_node list \<Rightarrow> (string \<times> string) list option" where
  "spec_first_meta (Element t as cs) =
     (if is_description_meta t as then Some as else spec_first_meta_list cs)"
| "spec_first_meta (Other s) = None"
| "spec_first_meta_list [] = None"
| "spec_first_meta_list (n # ns) =
     (case spec_first_meta n of Some as \<Rightarrow> Some as | None \<Rightarrow> spec_first_meta_list ns)"

definition spec_meta_snippet :: "document \<Rightarrow> string" where
  "spec_meta_snippet doc =
     (case spec_first_meta_list doc of
        None \<Rightarrow> []
      | Some as \<Rightarrow> (case map_of as ''content'' of Some v \<Rightarrow> v | None \<Rightarrow> []))"

text \<open>The attributes of the first node of a selection, for the proofs.\<close>

fun attrs_of :: "html_node \<Rightarrow> (string \<times> string) list" where
  "attrs_of (Element t as cs) = as"
| "attrs_of (Other s) = []"

definition first_attrs :: "html_node list \<Rightarrow> (string \<times> string) list option" where
  "first_attrs xs = (case xs of [] \<Rightarrow> None | m # ms \<Rightarrow> Some (attrs_of m))"

section \<open>parseSitemap\<close>

text \<open>
  \<open>parseSitemap\<close> parses the XML sitemap and returns the URLs. \<open>Decode\<close> is
  \<open>encoding/xml\<close>'s decoder into the \<open>Sitemap\<close> structure, a parameter: the decoded
  structure, its \<open>url\<close> entries in document order, or the decoding error. The loop
  appends the \<open>Loc\<close> of each entry.
\<close>

definition parseSitemap ::
  "(string \<Rightarrow> string \<Rightarrow> request option \<times> error option) \<Rightarrow>
   (request \<Rightarrow> error + response) \<Rightarrow>
   (int \<Rightarrow> 'g) \<Rightarrow> ('g \<Rightarrow> int \<times> 'g) \<Rightarrow> (string \<Rightarrow> error + Sitemap) \<Rightarrow>
   int \<Rightarrow> string \<Rightarrow> 'g \<Rightarrow> ((error + string list) \<times> 'g) exec" where
  "parseSitemap NewRequest Do rand_Seed rand_Int Decode now sitemapURL g =
     (case makeRequest NewRequest Do rand_Seed rand_Int now sitemapURL g of
        Panic p \<Rightarrow> Panic p
      | Return (Inl err, g') \<Rightarrow> Return (Inl err, g')
      | Return (Inr resp, g') \<Rightarrow>
          (case Decode (resp_Body resp) of
             Inl err \<Rightarrow> Return (Inl err, g')
           | Inr sitemap \<Rightarrow>
               Return (Inr (foldl (\<lambda>urls url. urls @ [Loc url]) [] (Urls sitemap)), g')))"

section \<open>scrapeImages\<close>

text \<open>
  \<open>scrapeImages\<close> fetches image data from a list of URLs. It starts one goroutine per
  URL and then receives \<open>len(urls)\<close> times from \<open>worklist\<close>. The goroutines and the
  caller interleave, so the function is modelled by its steps: a state holds the shared
  variables and the program point of every goroutine, and one step runs the next
  statement of one of them, if it is not blocked.

  The program points of a goroutine, named by the statement it runs next:
  \<^item> \<open>Acquire\<close>: \<open>tokens <- struct{}{}\<close>;
  \<^item> \<open>Fetch\<close>: \<open>makeRequest(url)\<close> and the test of its error;
  \<^item> \<open>Parse resp\<close>: \<open>parser.GetMediaData(resp)\<close> and the test of its error;
  \<^item> \<open>Lock data\<close>, \<open>Append data\<close>, \<open>Unlock\<close>: the three statements under the mutex;
  \<^item> \<open>Signal\<close>: \<open>worklist <- url\<close>;
  \<^item> \<open>Release e\<close>: the deferred \<open><-tokens\<close>, run when the body is left, \<open>e\<close> saying
    where it was left: by the \<open>return\<close> after a failed request, by the \<open>return\<close>
    after a failed extraction, at its end, or by a panic;
  \<^item> \<open>Done e\<close>: the goroutine has ended.
\<close>

datatype exit_point = RequestError | ParseError | BodyEnd | Panicking panic

datatype task_pc =
    Acquire
  | Fetch
  | Parse response
  | Lock MediaData
  | Append MediaData
  | Unlock
  | Signal
  | Release exit_point
  | Done exit_point

text \<open>
  The caller: \<open>Launch i\<close> is the first loop before its \<open>i\<close>-th iteration,
  \<open>Wait k\<close> the second loop after \<open>k\<close> receives, \<open>Returned r\<close> the function after
  \<open>return results\<close>.
\<close>

datatype main_pc = Launch nat | Wait nat | Returned "MediaData list"

text \<open>
  The shared variables: the number of values buffered in \<open>tokens\<close> (they are all
  \<open>struct{}{}\<close>), \<open>results\<close>, the values buffered in \<open>worklist\<close>, whether \<open>mu\<close>
  is locked; then the goroutines started so far, each with its argument \<open>url\<close> and its
  program point, the caller's program point, and the panic that ended the process, if any.
\<close>

record state =
  tokens :: nat
  results :: "MediaData list"
  worklist :: "string list"
  mu :: bool
  tasks :: "(string \<times> task_pc) list"
  main :: main_pc
  crashed :: "panic option"

text \<open>
  The arguments of \<open>scrapeImages\<close>, and what \<open>makeRequest\<close> gives to the goroutine
  number \<open>i\<close> on its URL (the network decides, so it is a parameter of the run).
\<close>

record config =
  cfg_urls :: "string list"
  cfg_parser :: "response \<Rightarrow> MediaData \<times> error option"
  cfg_concurrency :: int
  cfg_makeRequest :: "nat \<Rightarrow> string \<Rightarrow> (error + response) exec"

text \<open>
  The state after the four declarations. \<open>make(chan struct{}, concurrency)\<close> panics on
  a negative size.
\<close>

definition scrapeImages_init :: "config \<Rightarrow> state exec" where
  "scrapeImages_init c =
     (if cfg_concurrency c < 0 then Panic MakechanSizeOutOfRange
      else Return \<lparr>tokens = 0, results = [], worklist = [], mu = False, tasks = [],
                   main = Launch 0, crashed = None\<rparr>)"

text \<open>
  One step of the caller. A receive from the empty \<open>worklist\<close> blocks: there is no step.
\<close>

definition main_step :: "config \<Rightarrow> state \<Rightarrow> state option" where
  "main_step c s =
     (case main s of
        Launch i \<Rightarrow>
          (if i < length (cfg_urls c)
           then Some (s\<lparr>tasks := tasks s @ [(cfg_urls c ! i, Acquire)], main := Launch (Suc i)\<rparr>)
           else Some (s\<lparr>main := Wait 0\<rparr>))
      | Wait k \<Rightarrow>
          (if k < length (cfg_urls c)
           then (case worklist s of
                   [] \<Rightarrow> None
                 | u # w \<Rightarrow> Some (s\<lparr>worklist := w, main := Wait (Suc k)\<rparr>))
           else Some (s\<lparr>main := Returned (results s)\<rparr>))
      | Returned r \<Rightarrow> None)"

text \<open>
  One step of the goroutine number \<open>i\<close>. A send on a full channel, a receive from an
  empty one and \<open>Lock\<close> on a locked mutex block (with \<open>concurrency = 0\<close> the
  channel \<open>tokens\<close> has no buffer and no receiver ever waits on it, so the send blocks
  as on a full channel). A panic runs the deferred receive and then ends the process.
  The calls of \<open>log.Printf\<close> change nothing of the state and are left out.
\<close>

definition set_pc :: "nat \<Rightarrow> string \<Rightarrow> task_pc \<Rightarrow> state \<Rightarrow> state" where
  "set_pc i url pc s = s\<lparr>tasks := (tasks s)[i := (url, pc)]\<rparr>"

definition task_step :: "config \<Rightarrow> nat \<Rightarrow> state \<Rightarrow> state option" where
  "task_step c i s =
     (if length (tasks s) \<le> i then None
      else
        (case tasks s ! i of
           (url, Acquire) \<Rightarrow>
             (if int (tokens s) < cfg_concurrency c
              then Some (set_pc i url Fetch (s\<lparr>tokens := Suc (tokens s)\<rparr>))
              else None)
         | (url, Fetch) \<Rightarrow>
             (case cfg_makeRequest c i url of
                Panic p \<Rightarrow> Some (set_pc i url (Release (Panicking p)) s)
              | Return (Inl err) \<Rightarrow> Some (set_pc i url (Release RequestError) s)
              | Return (Inr resp) \<Rightarrow> Some (set_pc i url (Parse resp) s))
         | (url, Parse resp) \<Rightarrow>
             (case cfg_parser c resp of
                (data, Some err) \<Rightarrow> Some (set_pc i url (Release ParseError) s)
              | (data, None) \<Rightarrow> Some (set_pc i url (Lock data) s))
         | (url, Lock data) \<Rightarrow>
             (if mu s then None else Some (set_pc i url (Append data) (s\<lparr>mu := True\<rparr>)))
         | (url, Append data) \<Rightarrow>
             Some (set_pc i url Unlock (s\<lparr>results := results s @ [data]\<rparr>))
         | (url, Unlock) \<Rightarrow> Some (set_pc i url Signal (s\<lparr>mu := False\<rparr>))
         | (url, Signal) \<Rightarrow>
             (if length (worklist s) < length (cfg_urls c)
              then Some (set_pc i url (Release BodyEnd) (s\<lparr>worklist := worklist s @ [url]\<rparr>))
              else None)
         | (url, Release e) \<Rightarrow>
             (if tokens s = 0 then None
              else Some (set_pc i url (Done e)
                     (s\<lparr>tokens := tokens s - 1,
                        crashed := (case e of Panicking p \<Rightarrow> Some p | _ \<Rightarrow> None)\<rparr>)))
         | (url, Done e) \<Rightarrow> None))"

text \<open>
  A step of the program is a step of the caller or of one goroutine; after a panic has
  ended the process there is none. A schedule is the list of who moves; \<open>run\<close> follows
  a schedule and gives no state when one of its moves is blocked.
\<close>

datatype actor = Main | Task nat

definition step :: "config \<Rightarrow> actor \<Rightarrow> state \<Rightarrow> state option" where
  "step c a s =
     (if crashed s \<noteq> None then None
      else (case a of Main \<Rightarrow> main_step c s | Task i \<Rightarrow> task_step c i s))"

fun run :: "config \<Rightarrow> actor list \<Rightarrow> state \<Rightarrow> state option" where
  "run c [] s = Some s"
| "run c (a # as) s = (case step c a s of None \<Rightarrow> None | Some s' \<Rightarrow> run c as s')"

definition scrapeImages :: "config \<Rightarrow> actor list \<Rightarrow> state option" where
  "scrapeImages c sched =
     (case scrapeImages_init c of Panic p \<Rightarrow> None | Return s0 \<Rightarrow> run c sched s0)"

inductive reachable :: "config \<Rightarrow> state \<Rightarrow> bool" for c :: config where
  init: "scrapeImages_init c = Return s \<Longrightarrow> reachable c s"
| step: "reachable c s \<Longrightarrow> step c a s = Some s' \<Longrightarrow> reachable c s'"

text \<open>
  The goroutines in flight: those that have sent on \<open>tokens\<close> and have not yet run the
  deferred receive.
\<close>

fun holds_token :: "task_pc \<Rightarrow> bool" where
  "holds_token Acquire = False"
| "holds_token (Done e) = False"
| "holds_token pc = True"

definition in_flight :: "state \<Rightarrow> nat" where
  "in_flight s = length (filter (\<lambda>(url, pc). holds_token pc) (tasks s))"

text \<open>
  Nobody can move: every goroutine started is blocked or has ended, and so is the caller.
\<close>

definition stuck :: "config \<Rightarrow> state \<Rightarrow> bool" where
  "stuck c s = (step c Main s = None \<and> list_all (\<lambda>i. step c (Task i) s = None) [0..<length (tasks s)])"

text \<open>
  The admission gate: the values buffered in \<open>tokens\<close> count the goroutines in flight,
  and they are no more than the capacity of the channel.
\<close>

definition gate_inv :: "config \<Rightarrow> state \<Rightarrow> bool" where
  "gate_inv c s = (tokens s = in_flight s \<and> int (tokens s) \<le> cfg_concurrency c)"

text \<open>
  For the proofs about the completion signals. A goroutine has signalled when it is past
  \<open>worklist <- url\<close>, and has appended when it is past \<open>append\<close>; \<open>count_pc\<close>
  counts the goroutines whose program point has a property.
\<close>

fun signalled :: "task_pc \<Rightarrow> bool" where
  "signalled (Release BodyEnd) = True"
| "signalled (Done BodyEnd) = True"
| "signalled pc = False"

fun appended :: "task_pc \<Rightarrow> bool" where
  "appended Unlock = True"
| "appended Signal = True"
| "appended pc = signalled pc"

definition count_pc :: "(task_pc \<Rightarrow> bool) \<Rightarrow> state \<Rightarrow> nat" where
  "count_pc P s = length (filter (\<lambda>(url, pc). P pc) (tasks s))"

text \<open>
  The receives the caller has made, and where the caller stands against the number of
  goroutines started. The values received and those still buffered in \<open>worklist\<close> are
  as many as the goroutines that have signalled.
\<close>

fun received :: "nat \<Rightarrow> main_pc \<Rightarrow> nat" where
  "received n (Launch i) = 0"
| "received n (Wait k) = k"
| "received n (Returned r) = n"

fun main_ok :: "nat \<Rightarrow> nat \<Rightarrow> main_pc \<Rightarrow> bool" where
  "main_ok n m (Launch i) = (i = m \<and> m \<le> n)"
| "main_ok n m (Wait k) = (m = n \<and> k \<le> n)"
| "main_ok n m (Returned r) = (m = n)"

definition signal_inv :: "config \<Rightarrow> state \<Rightarrow> bool" where
  "signal_inv c s =
     (received (length (cfg_urls c)) (main s) + length (worklist s) = count_pc signalled s
      \<and> main_ok (length (cfg_urls c)) (length (tasks s)) (main s))"

text \<open>
  What the goroutine number \<open>i\<close> produces, from the arguments alone: the record that the
  parser makes of the response, or nothing when the request or the extraction fails.
  \<open>failures\<close> is the number \<open>K\<close> of the URLs that produce nothing.
\<close>

definition task_result :: "config \<Rightarrow> nat \<Rightarrow> MediaData option" where
  "task_result c i =
     (case cfg_makeRequest c i (cfg_urls c ! i) of
        Panic p \<Rightarrow> None
      | Return (Inl err) \<Rightarrow> None
      | Return (Inr resp) \<Rightarrow>
          (case cfg_parser c resp of (data, Some err) \<Rightarrow> None | (data, None) \<Rightarrow> Some data))"

definition failures :: "config \<Rightarrow> nat" where
  "failures c = length (filter (\<lambda>i. task_result c i = None) [0..<length (cfg_urls c)])"

text \<open>
  The program point of a goroutine agrees with what it produces: it is past the two
  tests exactly when both calls succeeded, and it leaves by the end of its body exactly
  then.
\<close>

fun pc_ok :: "config \<Rightarrow> nat \<Rightarrow> task_pc \<Rightarrow> bool" where
  "pc_ok c i Acquire = True"
| "pc_ok c i Fetch = True"
| "pc_ok c i (Parse resp) = (cfg_makeRequest c i (cfg_urls c ! i) = Return (Inr resp))"
| "pc_ok c i (Lock data) = (task_result c i = Some data)"
| "pc_ok c i (Append data) = (task_result c i = Some data)"
| "pc_ok c i Unlock = (task_result c i \<noteq> None)"
| "pc_ok c i Signal = (task_result c i \<noteq> None)"
| "pc_ok c i (Release e) = ((e = BodyEnd) = (task_result c i \<noteq> None))"
| "pc_ok c i (Done e) = ((e = BodyEnd) = (task_result c i \<noteq> None))"

definition tasks_inv :: "config \<Rightarrow> state \<Rightarrow> bool" where
  "tasks_inv c s =
     (\<forall>i<length (tasks s). fst (tasks s ! i) = cfg_urls c ! i \<and> pc_ok c i (snd (tasks s ! i)))"

fun is_Done :: "task_pc \<Rightarrow> bool" where
  "is_Done (Done e) = True"
| "is_Done pc = False"

text \<open>
  \<open>results\<close> holds one record per goroutine that has appended, each produced by one of
  the URLs, and the value returned is \<open>results\<close>.
\<close>

fun returned_ok :: "main_pc \<Rightarrow> MediaData list \<Rightarrow> bool" where
  "returned_ok (Returned r) rs = (r = rs)"
| "returned_ok pc rs = True"

definition results_inv :: "config \<Rightarrow> state \<Rightarrow> bool" where
  "results_inv c s =
     (length (results s) = count_pc appended s
      \<and> list_all (\<lambda>d. list_ex (\<lambda>i. task_result c i = Some d) [0..<length (cfg_urls c)]) (results s)
      \<and> returned_ok (main s) (results s))"

section \<open>Stand-ins for the libraries\<close>

text \<open>
  A stand-in for the libraries, to run the functions on concrete inputs: request
  construction rejects a URL that starts with a colon (no protocol scheme), the
  network answers every request for a host other than \<open>down\<close> with a fixed page and
  the status the table gives, and the random source is a linear congruential step.
\<close>

definition ex_NewRequest :: "string \<Rightarrow> string \<Rightarrow> request option \<times> error option" where
  "ex_NewRequest m u =
     (if take 1 u = '':'' then (None, Some (Error ''missing protocol scheme''))
      else (Some \<lparr>req_Method = m, req_URL = u, req_Header = []\<rparr>, None))"

definition ex_Seed :: "int \<Rightarrow> int" where
  "ex_Seed s = s"

definition ex_Int :: "int \<Rightarrow> int \<times> int" where
  "ex_Int g = (let g' = (g * 1103515245 + 12345) mod 2147483648 in (g', g'))"

definition ex_Do :: "string \<Rightarrow> request \<Rightarrow> error + response" where
  "ex_Do body req =
     (if req_URL req = ''http://down/'' then Inl (Error ''connection refused'')
      else if req_URL req = ''http://old/'' then
        Inr \<lparr>resp_StatusCode = 200,
             resp_Request = req\<lparr>req_URL := ''http://new/''\<rparr>,
             resp_Header = [], resp_Body = body\<rparr>
      else if req_URL req = ''http://missing/'' then
        Inr \<lparr>resp_StatusCode = 404, resp_Request = req, resp_Header = [], resp_Body = body\<rparr>
      else Inr \<lparr>resp_StatusCode = 200, resp_Request = req, resp_Header = [], resp_Body = body\<rparr>)"

text \<open>
  Two parsed pages: one with a description and three images, the second of which has no
  \<open>src\<close>; one with neither. The stand-in parser knows the two bodies and fails on
  any other.
\<close>

definition ex_doc :: document where
  "ex_doc =
     [Other ''doctype'',
      Element ''html'' []
        [Element ''head'' []
           [Element ''meta'' [(''charset'', ''utf-8'')] [],
            Element ''meta'' [(''name'', ''description''), (''content'', ''hello'')] []],
         Element ''body'' []
           [Element ''img'' [(''src'', ''a.png'')] [],
            Element ''p'' [] [Other ''text'', Element ''img'' [(''alt'', ''none'')] []],
            Element ''img'' [(''src'', ''b.jpg'')] []]]]"

definition ex_doc_plain :: document where
  "ex_doc_plain = [Element ''html'' [] [Element ''body'' [] [Other ''nothing here'']]]"

definition ex_Parse :: "string \<Rightarrow> error + document" where
  "ex_Parse body =
     (if body = ''page'' then Inr ex_doc
      else if body = ''plain'' then Inr ex_doc_plain
      else Inl (Error ''unreadable body''))"

definition ex_Decode :: "string \<Rightarrow> error + Sitemap" where
  "ex_Decode body =
     (if body = ''sitemap'' then
        Inr \<lparr>XMLName = ''urlset'', Urls = [\<lparr>Loc = ''https://x/1''\<rparr>, \<lparr>Loc = ''https://x/2''\<rparr>]\<rparr>
      else Inl (Error ''expected element type <urlset>''))"

text \<open>A response as \<open>client.Do\<close> gives it after a redirect to \<open>http://new/\<close>.\<close>

definition ex_resp :: "string \<Rightarrow> response" where
  "ex_resp body =
     \<lparr>resp_StatusCode = 200,
      resp_Request = \<lparr>req_Method = ''GET'', req_URL = ''http://new/'', req_Header = []\<rparr>,
      resp_Header = [], resp_Body = body\<rparr>"

text \<open>The response object of that response, its body unread.\<close>

definition ex_object :: "string \<Rightarrow> response_object" where
  "ex_object body = \<lparr>obj_response = ex_resp body, obj_Body_closed = False\<rparr>"

text \<open>
  A run of \<open>scrapeImages\<close> on three URLs with one token: every goroutine calls
  \<open>makeRequest\<close> with the stand-ins (the state of the random source is dropped, a
  goroutine reads nothing of it), the parser is \<open>GetMediaData\<close>, and the request for
  \<open>http://down/\<close> fails.
\<close>

definition drop_rng :: "('a \<times> 'g) exec \<Rightarrow> 'a exec" where
  "drop_rng r = (case r of Panic p \<Rightarrow> Panic p | Return (v, g) \<Rightarrow> Return v)"

definition ex_makeRequest :: "nat \<Rightarrow> string \<Rightarrow> (error + response) exec" where
  "ex_makeRequest i url =
     drop_rng (makeRequest ex_NewRequest (ex_Do ''page'') ex_Seed ex_Int (int i) url (0::int))"

definition ex_config :: "string list \<Rightarrow> int \<Rightarrow> config" where
  "ex_config urls n =
     \<lparr>cfg_urls = urls, cfg_parser = GetMediaData ex_Parse, cfg_concurrency = n,
      cfg_makeRequest = ex_makeRequest\<rparr>"

text \<open>
  The same with a network that answers every request with a body the stand-in parser
  cannot read, so that the extraction fails.
\<close>

definition ex_makeRequest_unreadable :: "nat \<Rightarrow> string \<Rightarrow> (error + response) exec" where
  "ex_makeRequest_unreadable i url =
     drop_rng (makeRequest ex_NewRequest (ex_Do ''garbage'') ex_Seed ex_Int (int i) url (0::int))"

definition ex_config_unreadable :: "string list \<Rightarrow> int \<Rightarrow> config" where
  "ex_config_unreadable urls n =
     \<lparr>cfg_urls = urls, cfg_parser = GetMediaData ex_Parse, cfg_concurrency = n,
      cfg_makeRequest = ex_makeRequest_unreadable\<rparr>"

text \<open>
  A schedule that runs the first goroutine of the example to its end and the second up
  to its request.
\<close>

definition ex_sched_request_fails :: "actor list" where
  "ex_sched_request_fails =
     [Main, Main, Main, Main,
      Task 0, Task 0, Task 0, Task 0, Task 0, Task 0, Task 0, Task 0,
      Task 1]"

text \<open>A schedule that runs the three goroutines of the example one after the other, to their ends.\<close>

definition ex_sched_all :: "actor list" where
  "ex_sched_all =
     [Main, Main, Main, Main,
      Task 0, Task 0, Task 0, Task 0, Task 0, Task 0, Task 0, Task 0,
      Task 1, Task 1, Task 1,
      Task 2, Task 2, Task 2, Task 2, Task 2, Task 2, Task 2, Task 2,
      Main, Main]"

section \<open>Properties of randomUserAgent and makeRequest\<close>

lemma smod_in_range:
  fixes r n :: int
  assumes "0 \<le> r" "0 < n"
  shows "0 \<le> r smod n \<and> r smod n < n"
proof -
  have "r smod n = r mod n"
    using assms by (simp add: signed_modulo_int_def sgn_if)
  then show ?thesis using assms by simp
qed

lemma index_slice_in_range:
  "0 \<le> i \<Longrightarrow> i < int (length xs) \<Longrightarrow> \<exists>a. index_slice xs i = Return a \<and> a \<in> set xs"
  by (simp add: index_slice_def)

lemma length_userAgents: "length userAgents = 3"
  by (simp add: userAgents_def)

lemmas randomUserAgent_defs =
  randomUserAgent_def randomUserAgent_seed_def randomUserAgent_draw_def

text \<open>
  C10. A call of \<open>randomUserAgent\<close> that nothing interrupts reseeds the source with
  the whole seconds of the clock before its draw: whatever state the source had, two such
  calls whose clock readings fall in the same second return the same result. And,
  \<open>rand.Int\<close> being non-negative, the index is in bounds after a draw in any state of
  the source: the result is one of the three strings of \<open>userAgents\<close> and never the
  index panic, in overlapping calls too.
\<close>

theorem randomUserAgent_same_second:
  assumes nonneg: "\<And>g. 0 \<le> fst (rand_Int g)"
    and same: "Unix t1 = Unix t2"
  shows "fst (randomUserAgent rand_Seed rand_Int t1 g1) = fst (randomUserAgent rand_Seed rand_Int t2 g2)
    \<and> (\<exists>a. fst (randomUserAgent rand_Seed rand_Int t1 g1) = Return a \<and> a \<in> set userAgents)
    \<and> length userAgents = 3
    \<and> snd (randomUserAgent rand_Seed rand_Int t1 g1) = snd (rand_Int (rand_Seed (Unix t1)))
    \<and> (\<exists>a. fst (randomUserAgent_draw rand_Int g) = Return a \<and> a \<in> set userAgents)"
proof -
  have draw: "\<exists>a. fst (randomUserAgent_draw rand_Int g) = Return a \<and> a \<in> set userAgents
      \<and> snd (randomUserAgent_draw rand_Int g) = snd (rand_Int g)" for g
  proof -
    obtain r g' where d: "rand_Int g = (r, g')"
      by (cases "rand_Int g")
    have "0 \<le> r" using nonneg [of g] d by simp
    then have rng: "0 \<le> r smod 3 \<and> r smod 3 < 3"
      using smod_in_range [of r 3] by simp
    have "\<exists>a. index_slice userAgents (r smod 3) = Return a \<and> a \<in> set userAgents"
      using rng by (intro index_slice_in_range) (simp_all add: length_userAgents)
    then show ?thesis
      using d by (simp add: randomUserAgent_draw_def length_userAgents)
  qed
  have eq: "randomUserAgent rand_Seed rand_Int t2 g2 = randomUserAgent rand_Seed rand_Int t1 g1"
    using same by (simp add: randomUserAgent_def randomUserAgent_seed_def)
  have r1: "randomUserAgent rand_Seed rand_Int t1 g1
      = randomUserAgent_draw rand_Int (rand_Seed (Unix t1))"
    by (simp add: randomUserAgent_def randomUserAgent_seed_def)
  show ?thesis
    using draw [of "rand_Seed (Unix t1)"] draw [of g] eq r1
    by (auto simp: length_userAgents)
qed

lemma ex_Int_nonneg: "0 \<le> fst (ex_Int g)"
  by (simp add: ex_Int_def Let_def)

theorem randomUserAgent_same_second_witness:
  "Unix 1700000000100000000 = Unix 1700000000900000000
   \<and> fst (randomUserAgent ex_Seed ex_Int 1700000000100000000 5)
     = fst (randomUserAgent ex_Seed ex_Int 1700000000900000000 77)
   \<and> fst (randomUserAgent ex_Seed ex_Int 1700000000100000000 5) = Return (userAgents ! 2)"
proof -
  have s: "Unix 1700000000100000000 = Unix 1700000000900000000"
    by (simp add: Unix_def)
  have v: "fst (randomUserAgent ex_Seed ex_Int 1700000000100000000 5) = Return (userAgents ! 2)"
    by (simp add: randomUserAgent_defs Unix_def ex_Seed_def ex_Int_def Let_def
        length_userAgents index_slice_def signed_modulo_int_def)
  from randomUserAgent_same_second [of ex_Int 1700000000100000000 1700000000900000000 ex_Seed 5 77,
      OF ex_Int_nonneg s]
  show ?thesis using s v by simp
qed

text \<open>
  Two calls in the same second that overlap do not return the same string: both seed,
  then the first call takes the first draw and the second call the second draw.
\<close>

theorem randomUserAgent_overlapping_counterexample:
  "Unix 1700000000100000000 = Unix 1700000000900000000
   \<and> randomUserAgent_overlapping ex_Seed ex_Int 1700000000100000000 1700000000900000000 (0::int)
     = (Return (userAgents ! 2), Return (userAgents ! 1))
   \<and> userAgents ! 2 \<noteq> userAgents ! 1"
  by (simp add: randomUserAgent_overlapping_def randomUserAgent_seed_def randomUserAgent_draw_def
      Unix_def ex_Seed_def ex_Int_def Let_def length_userAgents index_slice_def
      signed_modulo_int_def userAgents_def)

text \<open>
  C4. \<open>makeRequest\<close> on a URL from which no request can be built, where
  \<open>http.NewRequest\<close> gives a nil request and the construction error: the source
  sets the header through the nil request before it tests the error, so the call panics
  with a nil pointer dereference and the construction error is never returned.
\<close>

theorem makeRequest_malformed_URL_panics:
  "NewRequest ''GET'' url = (None, Some err) \<Longrightarrow>
   makeRequest NewRequest Do rand_Seed rand_Int now url g = Panic NilPointerDereference"
  by (simp add: makeRequest_def)

theorem makeRequest_malformed_URL_panics_witness:
  "ex_NewRequest ''GET'' ''://example.com'' = (None, Some (Error ''missing protocol scheme''))
   \<and> makeRequest ex_NewRequest (ex_Do ''page'') ex_Seed ex_Int 0 ''://example.com'' (0::int)
       = Panic NilPointerDereference"
proof -
  have h: "ex_NewRequest ''GET'' ''://example.com'' = (None, Some (Error ''missing protocol scheme''))"
    by (simp add: ex_NewRequest_def)
  from makeRequest_malformed_URL_panics
    [where NewRequest = ex_NewRequest and url = "''://example.com''"
      and err = "Error ''missing protocol scheme''" and Do = "ex_Do ''page''"
      and rand_Seed = ex_Seed and rand_Int = ex_Int and now = 0 and g = 0] h
  show ?thesis by simp
qed

text \<open>
  What \<open>makeRequest\<close> does when the request can be built: it returns what
  \<open>client.Do\<close> gives, the response with whatever status code, or the error as a value.
\<close>

lemma makeRequest_built:
  assumes "NewRequest ''GET'' url = (Some req, None)" and "\<And>g. 0 \<le> fst (rand_Int g)"
  shows "\<exists>agent g'. agent \<in> set userAgents \<and>
    makeRequest NewRequest Do rand_Seed rand_Int now url g =
      Return (Do (req\<lparr>req_Header := Header_Set (req_Header req) ''User-Agent'' agent\<rparr>), g')"
proof -
  obtain r g' where d: "rand_Int (rand_Seed (Unix now)) = (r, g')"
    by (cases "rand_Int (rand_Seed (Unix now))")
  have "0 \<le> r" using assms(2) [of "rand_Seed (Unix now)"] d by simp
  then have "0 \<le> r smod 3 \<and> r smod 3 < 3"
    using smod_in_range [of r 3] by simp
  then obtain a where a: "index_slice userAgents (r smod 3) = Return a" "a \<in> set userAgents"
    using index_slice_in_range [of "r smod 3" userAgents] by (auto simp: length_userAgents)
  have "makeRequest NewRequest Do rand_Seed rand_Int now url g =
      Return (Do (req\<lparr>req_Header := Header_Set (req_Header req) ''User-Agent'' a\<rparr>), g')"
    using assms(1) d a(1)
    by (simp add: makeRequest_def randomUserAgent_defs Let_def length_userAgents
        split: sum.splits)
  then show ?thesis using a(2) by blast
qed

section \<open>Properties of parseSitemap\<close>

lemma foldl_append_Loc:
  "foldl (\<lambda>urls url. urls @ [Loc url]) acc us = acc @ map Loc us"
  by (induction us arbitrary: acc) simp_all

text \<open>
  What \<open>parseSitemap\<close> does when the request can be built: the error of \<open>client.Do\<close>
  or of the decoder, or the \<open>Loc\<close> of the decoded entries in their order.
\<close>

lemma parseSitemap_built:
  assumes "NewRequest ''GET'' sitemapURL = (Some req, None)" and "\<And>g. 0 \<le> fst (rand_Int g)"
  shows "\<exists>agent g'. agent \<in> set userAgents \<and>
    parseSitemap NewRequest Do rand_Seed rand_Int Decode now sitemapURL g =
      (case Do (req\<lparr>req_Header := Header_Set (req_Header req) ''User-Agent'' agent\<rparr>) of
         Inl err \<Rightarrow> Return (Inl err, g')
       | Inr resp \<Rightarrow>
           (case Decode (resp_Body resp) of
              Inl err \<Rightarrow> Return (Inl err, g')
            | Inr sitemap \<Rightarrow> Return (Inr (map Loc (Urls sitemap)), g')))"
proof -
  obtain agent g' where a: "agent \<in> set userAgents"
    "makeRequest NewRequest Do rand_Seed rand_Int now sitemapURL g =
      Return (Do (req\<lparr>req_Header := Header_Set (req_Header req) ''User-Agent'' agent\<rparr>), g')"
    using makeRequest_built [of NewRequest sitemapURL req rand_Int] assms by blast
  have "parseSitemap NewRequest Do rand_Seed rand_Int Decode now sitemapURL g =
      (case Do (req\<lparr>req_Header := Header_Set (req_Header req) ''User-Agent'' agent\<rparr>) of
         Inl err \<Rightarrow> Return (Inl err, g')
       | Inr resp \<Rightarrow>
           (case Decode (resp_Body resp) of
              Inl err \<Rightarrow> Return (Inl err, g')
            | Inr sitemap \<Rightarrow> Return (Inr (map Loc (Urls sitemap)), g')))"
    using a(2) by (simp add: parseSitemap_def foldl_append_Loc split: sum.splits)
  then show ?thesis using a(1) by blast
qed

lemma parseSitemap_example:
  "parseSitemap ex_NewRequest (ex_Do ''sitemap'') ex_Seed ex_Int ex_Decode 0 ''http://x/sitemap.xml'' (0::int)
     = Return (Inr [''https://x/1'', ''https://x/2''], 12345)"
  by (simp add: parseSitemap_def makeRequest_def ex_NewRequest_def ex_Do_def
      randomUserAgent_defs ex_Seed_def ex_Int_def Unix_def index_slice_def length_userAgents
      Let_def signed_modulo_int_def Header_Set_def ex_Decode_def)

text \<open>
  C5. \<open>parseSitemap\<close> on a URL from which no request can be built: the fetch
  fails, but the function does not return the error; the panic of \<open>makeRequest\<close>
  goes through it.
\<close>

theorem parseSitemap_malformed_URL_panics:
  "NewRequest ''GET'' sitemapURL = (None, Some err) \<Longrightarrow>
   parseSitemap NewRequest Do rand_Seed rand_Int Decode now sitemapURL g
     = Panic NilPointerDereference"
  by (simp add: parseSitemap_def makeRequest_def)

theorem parseSitemap_malformed_URL_panics_witness:
  "ex_NewRequest ''GET'' ''://example.com/sitemap.xml''
     = (None, Some (Error ''missing protocol scheme''))
   \<and> parseSitemap ex_NewRequest (ex_Do ''sitemap'') ex_Seed ex_Int ex_Decode 0
        ''://example.com/sitemap.xml'' (0::int)
       = Panic NilPointerDereference"
proof -
  have h: "ex_NewRequest ''GET'' ''://example.com/sitemap.xml''
     = (None, Some (Error ''missing protocol scheme''))"
    by (simp add: ex_NewRequest_def)
  from parseSitemap_malformed_URL_panics
    [where NewRequest = ex_NewRequest and sitemapURL = "''://example.com/sitemap.xml''"
      and err = "Error ''missing protocol scheme''" and Do = "ex_Do ''sitemap''"
      and rand_Seed = ex_Seed and rand_Int = ex_Int and Decode = ex_Decode
      and now = 0 and g = 0] h
  show ?thesis by simp
qed

section \<open>Properties of GetMediaData\<close>

lemma foldl_append_attr:
  "foldl (\<lambda>acc s. case Attr s k of Some v \<Rightarrow> acc @ [v] | None \<Rightarrow> acc) acc ns
     = acc @ concat (map (\<lambda>s. case Attr s k of Some v \<Rightarrow> [v] | None \<Rightarrow> []) ns)"
  by (induction ns arbitrary: acc) (auto split: option.splits)

lemma MatchAll_img_srcs:
  "concat (map (\<lambda>s. case Attr s ''src'' of Some v \<Rightarrow> [v] | None \<Rightarrow> []) (MatchAll sel_img n))
     = spec_image_refs n"
  "concat (map (\<lambda>s. case Attr s ''src'' of Some v \<Rightarrow> [v] | None \<Rightarrow> [])
       (concat (map (MatchAll sel_img) ns)))
     = spec_image_refs_list ns"
  by (induction n and ns rule: spec_image_refs_spec_image_refs_list.induct)
    (auto simp: sel_img_def split: option.splits)

lemma filter_is_Element_MatchAll:
  "concat (map (MatchAll sel) (filter is_Element ns)) = concat (map (MatchAll sel) ns)"
proof (induction ns)
  case Nil
  then show ?case by simp
next
  case (Cons n ns)
  then show ?case by (cases n) simp_all
qed

lemma Find_img_srcs:
  "concat (map (\<lambda>s. case Attr s ''src'' of Some v \<Rightarrow> [v] | None \<Rightarrow> []) (Find doc sel_img))
     = spec_image_refs_list doc"
  by (simp add: Find_def filter_is_Element_MatchAll MatchAll_img_srcs)

lemma first_attrs_append:
  "first_attrs (xs @ ys) = (case first_attrs xs of Some a \<Rightarrow> Some a | None \<Rightarrow> first_attrs ys)"
  by (cases xs) (simp_all add: first_attrs_def)

lemma first_attrs_simps [simp]:
  "first_attrs [] = None" "first_attrs (m # ms) = Some (attrs_of m)"
  by (simp_all add: first_attrs_def)

lemma MatchAll_meta_first:
  "first_attrs (MatchAll sel_meta_description n) = spec_first_meta n"
  "first_attrs (concat (map (MatchAll sel_meta_description) ns)) = spec_first_meta_list ns"
  by (induction n and ns rule: spec_first_meta_spec_first_meta_list.induct)
    (simp_all add: sel_meta_description_def is_description_meta_def first_attrs_append
      split: option.splits)

lemma Selection_Attr_first_attrs:
  "Selection_Attr xs k = (case first_attrs xs of None \<Rightarrow> None | Some as \<Rightarrow> map_of as k)"
proof (cases xs)
  case Nil
  then show ?thesis by (simp add: Selection_Attr_def)
next
  case (Cons m ms)
  then show ?thesis by (cases m) (simp_all add: Selection_Attr_def)
qed

lemma Find_meta_snippet:
  "(case Selection_Attr (Find doc sel_meta_description) ''content'' of Some v \<Rightarrow> v | None \<Rightarrow> [])
     = spec_meta_snippet doc"
  by (simp add: Selection_Attr_first_attrs Find_def filter_is_Element_MatchAll
      MatchAll_meta_first spec_meta_snippet_def split: option.splits)

lemma GetMediaData_ok:
  assumes "html_Parse (resp_Body resp) = Inr doc"
  shows "GetMediaData html_Parse resp =
    (\<lparr>URL = req_URL (resp_Request resp), ImageURLs = spec_image_refs_list doc,
      StatusCode = resp_StatusCode resp, meta = spec_meta_snippet doc\<rparr>, None)"
  using assms
  by (simp add: GetMediaData_def NewDocumentFromResponse_def Let_def foldl_append_attr
      Find_img_srcs Find_meta_snippet)

lemma GetMediaData_err:
  assumes "html_Parse (resp_Body resp) = Inl e"
  shows "GetMediaData html_Parse resp = (MediaData_zero, Some e)"
  using assms by (simp add: GetMediaData_def NewDocumentFromResponse_def)

lemma ex_doc_image_refs: "spec_image_refs_list ex_doc = [''a.png'', ''b.jpg'']"
  by (simp add: ex_doc_def)

lemma ex_doc_meta: "spec_meta_snippet ex_doc = ''hello''"
  by (simp add: ex_doc_def spec_meta_snippet_def is_description_meta_def)

lemma ex_doc_plain_meta:
  "spec_first_meta_list ex_doc_plain = None \<and> spec_meta_snippet ex_doc_plain = []"
  by (simp add: ex_doc_plain_def spec_meta_snippet_def is_description_meta_def)

text \<open>
  C6. For every document the body parses to, the image list of the record is the
  \<open>src\<close> of every \<open>img\<close> element that has one, in document order; an \<open>img\<close>
  without \<open>src\<close> is left out and no error is returned.
\<close>

theorem GetMediaData_image_refs:
  assumes "html_Parse (resp_Body resp) = Inr doc"
  shows "ImageURLs (fst (GetMediaData html_Parse resp)) = spec_image_refs_list doc
    \<and> snd (GetMediaData html_Parse resp) = None"
  using assms GetMediaData_ok [of html_Parse resp doc] by simp

theorem GetMediaData_image_refs_witness:
  "ex_Parse (resp_Body (ex_resp ''page'')) = Inr ex_doc
   \<and> ImageURLs (fst (GetMediaData ex_Parse (ex_resp ''page''))) = [''a.png'', ''b.jpg'']
   \<and> snd (GetMediaData ex_Parse (ex_resp ''page'')) = None"
proof -
  have h: "ex_Parse (resp_Body (ex_resp ''page'')) = Inr ex_doc"
    by (simp add: ex_Parse_def ex_resp_def)
  from GetMediaData_image_refs [of ex_Parse "ex_resp ''page''" ex_doc] h show ?thesis
    by (simp add: ex_doc_image_refs)
qed

text \<open>
  C7. For every document the body parses to, the snippet of the record is the
  \<open>content\<close> attribute of the first \<open>meta\<close> element whose \<open>name\<close> starts with
  \<open>description\<close> (the empty string when that element has no \<open>content\<close>); when
  there is no such element the snippet is the empty string. No error is returned.
\<close>

theorem GetMediaData_meta_snippet:
  assumes "html_Parse (resp_Body resp) = Inr doc"
  shows "meta (fst (GetMediaData html_Parse resp)) =
      (case spec_first_meta_list doc of
         None \<Rightarrow> []
       | Some as \<Rightarrow> (case map_of as ''content'' of Some v \<Rightarrow> v | None \<Rightarrow> []))
    \<and> snd (GetMediaData html_Parse resp) = None"
  using assms GetMediaData_ok [of html_Parse resp doc] by (simp add: spec_meta_snippet_def)

theorem GetMediaData_meta_snippet_witness:
  "ex_Parse (resp_Body (ex_resp ''page'')) = Inr ex_doc
   \<and> meta (fst (GetMediaData ex_Parse (ex_resp ''page''))) = ''hello''
   \<and> ex_Parse (resp_Body (ex_resp ''plain'')) = Inr ex_doc_plain
   \<and> spec_first_meta_list ex_doc_plain = None
   \<and> meta (fst (GetMediaData ex_Parse (ex_resp ''plain''))) = []
   \<and> snd (GetMediaData ex_Parse (ex_resp ''plain'')) = None"
proof -
  have h: "ex_Parse (resp_Body (ex_resp ''page'')) = Inr ex_doc"
    by (simp add: ex_Parse_def ex_resp_def)
  have h': "ex_Parse (resp_Body (ex_resp ''plain'')) = Inr ex_doc_plain"
    by (simp add: ex_Parse_def ex_resp_def)
  have m: "spec_first_meta_list ex_doc = Some [(''name'', ''description''), (''content'', ''hello'')]"
    by (simp add: ex_doc_def is_description_meta_def)
  from GetMediaData_meta_snippet [of ex_Parse "ex_resp ''page''" ex_doc]
    GetMediaData_meta_snippet [of ex_Parse "ex_resp ''plain''" ex_doc_plain] h h' m
  show ?thesis by (simp add: ex_doc_plain_meta)
qed

text \<open>
  C8. \<open>GetMediaData\<close> returns an error exactly when the body of the response cannot
  be parsed into a document, and then the error is the parser's; otherwise the record's
  \<open>URL\<close> is the URL of the request that the response carries (the request that was
  sent last, after redirects) and its \<open>StatusCode\<close> is the response's.
\<close>

theorem GetMediaData_error_iff:
  "(snd (GetMediaData html_Parse resp) = Some e) = (html_Parse (resp_Body resp) = Inl e)
   \<and> (snd (GetMediaData html_Parse resp) = None \<longrightarrow>
        URL (fst (GetMediaData html_Parse resp)) = req_URL (resp_Request resp)
        \<and> StatusCode (fst (GetMediaData html_Parse resp)) = resp_StatusCode resp)"
proof (cases "html_Parse (resp_Body resp)")
  case (Inl e')
  then show ?thesis using GetMediaData_err [of html_Parse resp e'] by auto
next
  case (Inr doc)
  then show ?thesis using GetMediaData_ok [of html_Parse resp doc] by simp
qed

theorem GetMediaData_error_iff_witness:
  "(\<exists>r. ex_makeRequest 0 ''http://old/'' = Return (Inr r)
      \<and> snd (GetMediaData ex_Parse r) = None
      \<and> URL (fst (GetMediaData ex_Parse r)) = ''http://new/''
      \<and> StatusCode (fst (GetMediaData ex_Parse r)) = 200)
   \<and> snd (GetMediaData ex_Parse (ex_resp ''garbage'')) = Some (Error ''unreadable body'')"
proof -
  have "\<exists>r. ex_makeRequest 0 ''http://old/'' = Return (Inr r) \<and> resp_Body r = ''page''
      \<and> req_URL (resp_Request r) = ''http://new/'' \<and> resp_StatusCode r = 200"
    by (simp add: ex_makeRequest_def drop_rng_def makeRequest_def ex_NewRequest_def ex_Do_def
        randomUserAgent_defs ex_Seed_def ex_Int_def Unix_def index_slice_def length_userAgents
        Let_def signed_modulo_int_def Header_Set_def)
  then obtain r where r: "ex_makeRequest 0 ''http://old/'' = Return (Inr r)"
    "resp_Body r = ''page''" "req_URL (resp_Request r) = ''http://new/''"
    "resp_StatusCode r = 200"
    by blast
  have h: "ex_Parse (resp_Body r) = Inr ex_doc"
    using r(2) by (simp add: ex_Parse_def)
  have h': "ex_Parse (resp_Body (ex_resp ''garbage'')) = Inl (Error ''unreadable body'')"
    by (simp add: ex_Parse_def ex_resp_def)
  have n: "snd (GetMediaData ex_Parse r) = None"
    using GetMediaData_error_iff [of ex_Parse r "the (snd (GetMediaData ex_Parse r))"] h
    by (cases "snd (GetMediaData ex_Parse r)") simp_all
  from GetMediaData_error_iff [of ex_Parse r "Error ''unreadable body''"]
    GetMediaData_error_iff [of ex_Parse "ex_resp ''garbage''" "Error ''unreadable body''"]
    r h' n
  show ?thesis by auto
qed

lemma GetMediaData_same_document:
  assumes "resp_Body r1 = resp_Body r2"
    and "resp_StatusCode r1 = resp_StatusCode r2"
    and "req_URL (resp_Request r1) = req_URL (resp_Request r2)"
  shows "GetMediaData html_Parse r1 = GetMediaData html_Parse r2"
  using assms
  by (simp add: GetMediaData_def NewDocumentFromResponse_def Let_def split: sum.splits)

lemma GetMediaData_call_unread:
  assumes "\<not> obj_Body_closed obj"
  shows "GetMediaData_call html_Parse obj
    = (GetMediaData html_Parse (obj_response obj), obj\<lparr>obj_Body_closed := True\<rparr>)"
proof -
  have "Body_Parse html_Parse (obj_Body_closed obj) = html_Parse"
    using assms by (simp add: Body_Parse_def fun_eq_iff)
  then show ?thesis by (simp add: GetMediaData_call_def)
qed

lemma GetMediaData_call_closed:
  assumes "obj_Body_closed obj"
  shows "fst (GetMediaData_call html_Parse obj)
    = (MediaData_zero, Some (Error ''http: read on closed response body''))"
  using assms
    GetMediaData_err [of "Body_Parse html_Parse (obj_Body_closed obj)" "obj_response obj"
      "Error ''http: read on closed response body''"]
  by (simp add: GetMediaData_call_def Body_Parse_def)

text \<open>
  C9. Extraction is a function of the document, for a response whose body is unread:
  the result is written out from the body, the status code and the request URL alone, so
  two such responses that carry the same document give the same result, record and
  error. It is not repeatable on one response: the call leaves the body closed, and a
  second call on the same response returns the error of the read and the zero record,
  which is not the first result whenever the first call succeeded.
\<close>

theorem GetMediaData_call_document:
  assumes "\<not> obj_Body_closed o1" and "\<not> obj_Body_closed o2"
    and "resp_Body (obj_response o1) = resp_Body (obj_response o2)"
    and "resp_StatusCode (obj_response o1) = resp_StatusCode (obj_response o2)"
    and "req_URL (resp_Request (obj_response o1)) = req_URL (resp_Request (obj_response o2))"
  shows "fst (GetMediaData_call html_Parse o1) = fst (GetMediaData_call html_Parse o2)
    \<and> fst (GetMediaData_call html_Parse o1) =
        (case html_Parse (resp_Body (obj_response o1)) of
           Inl e \<Rightarrow> (MediaData_zero, Some e)
         | Inr doc \<Rightarrow>
             (\<lparr>URL = req_URL (resp_Request (obj_response o1)),
               ImageURLs = spec_image_refs_list doc,
               StatusCode = resp_StatusCode (obj_response o1),
               meta = spec_meta_snippet doc\<rparr>, None))
    \<and> obj_Body_closed (snd (GetMediaData_call html_Parse o1))
    \<and> obj_response (snd (GetMediaData_call html_Parse o1)) = obj_response o1
    \<and> fst (GetMediaData_call html_Parse (snd (GetMediaData_call html_Parse o1)))
        = (MediaData_zero, Some (Error ''http: read on closed response body''))
    \<and> (snd (fst (GetMediaData_call html_Parse o1)) = None \<longrightarrow>
         fst (GetMediaData_call html_Parse (snd (GetMediaData_call html_Parse o1)))
           \<noteq> fst (GetMediaData_call html_Parse o1))"
proof -
  have c1: "GetMediaData_call html_Parse o1
      = (GetMediaData html_Parse (obj_response o1), o1\<lparr>obj_Body_closed := True\<rparr>)"
    using GetMediaData_call_unread [OF assms(1)] .
  have c2: "GetMediaData_call html_Parse o2
      = (GetMediaData html_Parse (obj_response o2), o2\<lparr>obj_Body_closed := True\<rparr>)"
    using GetMediaData_call_unread [OF assms(2)] .
  have eq: "GetMediaData html_Parse (obj_response o1) = GetMediaData html_Parse (obj_response o2)"
    using GetMediaData_same_document [OF assms(3,4,5)] .
  have val: "GetMediaData html_Parse (obj_response o1) =
        (case html_Parse (resp_Body (obj_response o1)) of
           Inl e \<Rightarrow> (MediaData_zero, Some e)
         | Inr doc \<Rightarrow>
             (\<lparr>URL = req_URL (resp_Request (obj_response o1)),
               ImageURLs = spec_image_refs_list doc,
               StatusCode = resp_StatusCode (obj_response o1),
               meta = spec_meta_snippet doc\<rparr>, None))"
  proof (cases "html_Parse (resp_Body (obj_response o1))")
    case (Inl e)
    then show ?thesis using GetMediaData_err [of html_Parse "obj_response o1" e] by simp
  next
    case (Inr doc)
    then show ?thesis using GetMediaData_ok [of html_Parse "obj_response o1" doc] by simp
  qed
  have again: "fst (GetMediaData_call html_Parse (o1\<lparr>obj_Body_closed := True\<rparr>))
      = (MediaData_zero, Some (Error ''http: read on closed response body''))"
    by (rule GetMediaData_call_closed) simp
  have ne: "fst (GetMediaData_call html_Parse (o1\<lparr>obj_Body_closed := True\<rparr>))
      \<noteq> GetMediaData html_Parse (obj_response o1)"
    if "snd (GetMediaData html_Parse (obj_response o1)) = None"
  proof
    assume "fst (GetMediaData_call html_Parse (o1\<lparr>obj_Body_closed := True\<rparr>))
      = GetMediaData html_Parse (obj_response o1)"
    then have "snd (GetMediaData html_Parse (obj_response o1))
      = Some (Error ''http: read on closed response body'')"
      using again by (metis snd_conv)
    then show False using that by simp
  qed
  show ?thesis
  proof (intro conjI impI)
    show "fst (GetMediaData_call html_Parse o1) = fst (GetMediaData_call html_Parse o2)"
      by (simp add: c1 c2 eq)
  next
    show "fst (GetMediaData_call html_Parse o1) =
        (case html_Parse (resp_Body (obj_response o1)) of
           Inl e \<Rightarrow> (MediaData_zero, Some e)
         | Inr doc \<Rightarrow>
             (\<lparr>URL = req_URL (resp_Request (obj_response o1)),
               ImageURLs = spec_image_refs_list doc,
               StatusCode = resp_StatusCode (obj_response o1),
               meta = spec_meta_snippet doc\<rparr>, None))"
      using val by (simp add: c1)
  next
    show "obj_Body_closed (snd (GetMediaData_call html_Parse o1))"
      by (simp add: c1)
  next
    show "obj_response (snd (GetMediaData_call html_Parse o1)) = obj_response o1"
      by (simp add: c1)
  next
    show "fst (GetMediaData_call html_Parse (snd (GetMediaData_call html_Parse o1)))
        = (MediaData_zero, Some (Error ''http: read on closed response body''))"
      using again by (simp add: c1)
  next
    assume "snd (fst (GetMediaData_call html_Parse o1)) = None"
    then show "fst (GetMediaData_call html_Parse (snd (GetMediaData_call html_Parse o1)))
           \<noteq> fst (GetMediaData_call html_Parse o1)"
      using ne by (simp add: c1)
  qed
qed

theorem GetMediaData_call_document_witness:
  "\<not> obj_Body_closed (ex_object ''page'')
   \<and> ex_object ''page'' \<noteq> (ex_object ''page'')
        \<lparr>obj_response := (ex_resp ''page'')\<lparr>resp_Header := [(''Date'', [''today''])]\<rparr>\<rparr>
   \<and> fst (GetMediaData_call ex_Parse (ex_object ''page''))
     = fst (GetMediaData_call ex_Parse ((ex_object ''page'')
        \<lparr>obj_response := (ex_resp ''page'')\<lparr>resp_Header := [(''Date'', [''today''])]\<rparr>\<rparr>))
   \<and> fst (GetMediaData_call ex_Parse (ex_object ''page''))
     = (\<lparr>URL = ''http://new/'', ImageURLs = [''a.png'', ''b.jpg''], StatusCode = 200,
         meta = ''hello''\<rparr>, None)
   \<and> obj_Body_closed (snd (GetMediaData_call ex_Parse (ex_object ''page'')))"
proof -
  let ?o2 = "(ex_object ''page'')
        \<lparr>obj_response := (ex_resp ''page'')\<lparr>resp_Header := [(''Date'', [''today''])]\<rparr>\<rparr>"
  have u1: "\<not> obj_Body_closed (ex_object ''page'')" by (simp add: ex_object_def)
  have u2: "\<not> obj_Body_closed ?o2" by (simp add: ex_object_def)
  have d: "ex_object ''page'' \<noteq> ?o2" by (simp add: ex_object_def ex_resp_def)
  have b: "resp_Body (obj_response (ex_object ''page'')) = resp_Body (obj_response ?o2)"
    "resp_StatusCode (obj_response (ex_object ''page'')) = resp_StatusCode (obj_response ?o2)"
    "req_URL (resp_Request (obj_response (ex_object ''page'')))
       = req_URL (resp_Request (obj_response ?o2))"
    by (simp_all add: ex_object_def)
  have h: "ex_Parse (resp_Body (obj_response (ex_object ''page''))) = Inr ex_doc"
    by (simp add: ex_Parse_def ex_resp_def ex_object_def)
  have m: "req_URL (resp_Request (obj_response (ex_object ''page''))) = ''http://new/''"
    "resp_StatusCode (obj_response (ex_object ''page'')) = 200"
    by (simp_all add: ex_object_def ex_resp_def)
  note t = GetMediaData_call_document [OF u1 u2 b, of ex_Parse]
  have e: "fst (GetMediaData_call ex_Parse (ex_object ''page''))
     = fst (GetMediaData_call ex_Parse ?o2)"
    using t by (rule conjunct1)
  have v: "fst (GetMediaData_call ex_Parse (ex_object ''page''))
     = (\<lparr>URL = ''http://new/'', ImageURLs = [''a.png'', ''b.jpg''], StatusCode = 200,
         meta = ''hello''\<rparr>, None)"
    using t [THEN conjunct2, THEN conjunct1] h m by (simp add: ex_doc_image_refs ex_doc_meta)
  have c: "obj_Body_closed (snd (GetMediaData_call ex_Parse (ex_object ''page'')))"
    using t [THEN conjunct2, THEN conjunct2, THEN conjunct1] .
  show ?thesis using u1 d e v c by (intro conjI)
qed

text \<open>
  The same response given twice to the extractor: the first call returns the record, the
  second the error of the read and the zero record.
\<close>

theorem GetMediaData_call_twice_counterexample:
  "fst (GetMediaData_call ex_Parse (ex_object ''page''))
     = (\<lparr>URL = ''http://new/'', ImageURLs = [''a.png'', ''b.jpg''], StatusCode = 200,
         meta = ''hello''\<rparr>, None)
   \<and> fst (GetMediaData_call ex_Parse (snd (GetMediaData_call ex_Parse (ex_object ''page''))))
     = (MediaData_zero, Some (Error ''http: read on closed response body''))
   \<and> fst (GetMediaData_call ex_Parse (snd (GetMediaData_call ex_Parse (ex_object ''page''))))
     \<noteq> fst (GetMediaData_call ex_Parse (ex_object ''page''))"
proof -
  have h: "ex_Parse (resp_Body (ex_resp ''page'')) = Inr ex_doc"
    by (simp add: ex_Parse_def ex_resp_def)
  have v: "GetMediaData ex_Parse (ex_resp ''page'')
     = (\<lparr>URL = ''http://new/'', ImageURLs = [''a.png'', ''b.jpg''], StatusCode = 200,
         meta = ''hello''\<rparr>, None)"
    using h GetMediaData_ok [of ex_Parse "ex_resp ''page''" ex_doc]
    by (simp add: ex_doc_image_refs ex_doc_meta ex_resp_def)
  have f: "GetMediaData_call ex_Parse (ex_object ''page'')
     = ((\<lparr>URL = ''http://new/'', ImageURLs = [''a.png'', ''b.jpg''], StatusCode = 200,
         meta = ''hello''\<rparr>, None), (ex_object ''page'')\<lparr>obj_Body_closed := True\<rparr>)"
    using GetMediaData_call_unread [of "ex_object ''page''" ex_Parse] v
    by (simp add: ex_object_def)
  have g: "fst (GetMediaData_call ex_Parse ((ex_object ''page'')\<lparr>obj_Body_closed := True\<rparr>))
     = (MediaData_zero, Some (Error ''http: read on closed response body''))"
    by (rule GetMediaData_call_closed) simp
  show ?thesis using f g by simp
qed

section \<open>Properties of scrapeImages\<close>

lemma count_update:
  "i < length xs \<Longrightarrow>
   length (filter P (xs[i := y])) + (if P (xs ! i) then 1 else 0)
     = length (filter P xs) + (if P y then 1 else 0)"
proof (induction xs arbitrary: i)
  case Nil
  then show ?case by simp
next
  case (Cons x xs)
  then show ?case by (cases i) auto
qed

lemma set_pc_simps [simp]:
  "tokens (set_pc i u pc s) = tokens s"
  "results (set_pc i u pc s) = results s"
  "worklist (set_pc i u pc s) = worklist s"
  "mu (set_pc i u pc s) = mu s"
  "main (set_pc i u pc s) = main s"
  "crashed (set_pc i u pc s) = crashed s"
  "tasks (set_pc i u pc s) = (tasks s)[i := (u, pc)]"
  by (simp_all add: set_pc_def)

lemma task_stepE [consumes 1, case_names Acquire Fetch_panic Fetch_error Fetch_ok Parse_error
    Parse_ok Lock Append Unlock Signal Release]:
  assumes "task_step c i s = Some s'"
  obtains
    url where "i < length (tasks s)" "tasks s ! i = (url, Acquire)"
      "int (tokens s) < cfg_concurrency c"
      "s' = set_pc i url Fetch (s\<lparr>tokens := Suc (tokens s)\<rparr>)"
  | url p where "i < length (tasks s)" "tasks s ! i = (url, Fetch)"
      "cfg_makeRequest c i url = Panic p" "s' = set_pc i url (Release (Panicking p)) s"
  | url err where "i < length (tasks s)" "tasks s ! i = (url, Fetch)"
      "cfg_makeRequest c i url = Return (Inl err)" "s' = set_pc i url (Release RequestError) s"
  | url resp where "i < length (tasks s)" "tasks s ! i = (url, Fetch)"
      "cfg_makeRequest c i url = Return (Inr resp)" "s' = set_pc i url (Parse resp) s"
  | url resp data err where "i < length (tasks s)" "tasks s ! i = (url, Parse resp)"
      "cfg_parser c resp = (data, Some err)" "s' = set_pc i url (Release ParseError) s"
  | url resp data where "i < length (tasks s)" "tasks s ! i = (url, Parse resp)"
      "cfg_parser c resp = (data, None)" "s' = set_pc i url (Lock data) s"
  | url data where "i < length (tasks s)" "tasks s ! i = (url, Lock data)" "\<not> mu s"
      "s' = set_pc i url (Append data) (s\<lparr>mu := True\<rparr>)"
  | url data where "i < length (tasks s)" "tasks s ! i = (url, Append data)"
      "s' = set_pc i url Unlock (s\<lparr>results := results s @ [data]\<rparr>)"
  | url where "i < length (tasks s)" "tasks s ! i = (url, Unlock)"
      "s' = set_pc i url Signal (s\<lparr>mu := False\<rparr>)"
  | url where "i < length (tasks s)" "tasks s ! i = (url, Signal)"
      "length (worklist s) < length (cfg_urls c)"
      "s' = set_pc i url (Release BodyEnd) (s\<lparr>worklist := worklist s @ [url]\<rparr>)"
  | url e where "i < length (tasks s)" "tasks s ! i = (url, Release e)" "tokens s \<noteq> 0"
      "s' = set_pc i url (Done e)
             (s\<lparr>tokens := tokens s - 1,
                crashed := (case e of Panicking p \<Rightarrow> Some p | _ \<Rightarrow> None)\<rparr>)"
proof -
  from assms have i: "i < length (tasks s)"
    by (simp add: task_step_def split: if_splits)
  obtain url pc where t: "tasks s ! i = (url, pc)" by (cases "tasks s ! i")
  show thesis
  proof (cases pc)
    case Acquire
    with assms i t that(1) show thesis
      by (simp add: task_step_def split: if_splits)
  next
    case Fetch
    with assms i t that(2,3,4) show thesis
      by (simp add: task_step_def split: exec.splits sum.splits)
  next
    case (Parse resp)
    with assms i t that(5,6) show thesis
      by (simp add: task_step_def split: prod.splits option.splits)
  next
    case (Lock d)
    with assms i t that(7) show thesis
      by (simp add: task_step_def split: if_splits)
  next
    case (Append d)
    with assms i t that(8) show thesis
      by (simp add: task_step_def)
  next
    case Unlock
    with assms i t that(9) show thesis
      by (simp add: task_step_def)
  next
    case Signal
    with assms i t that(10) show thesis
      by (simp add: task_step_def split: if_splits)
  next
    case (Release e)
    with assms i t that(11) show thesis
      by (simp add: task_step_def split: if_splits)
  next
    case (Done e)
    with assms i t show thesis
      by (simp add: task_step_def)
  qed
qed

lemma main_stepE [consumes 1, case_names Launch Launch_end Receive Return]:
  assumes "main_step c s = Some s'"
  obtains
    i where "main s = Launch i" "i < length (cfg_urls c)"
      "s' = s\<lparr>tasks := tasks s @ [(cfg_urls c ! i, Acquire)], main := Launch (Suc i)\<rparr>"
  | i where "main s = Launch i" "length (cfg_urls c) \<le> i" "s' = s\<lparr>main := Wait 0\<rparr>"
  | k u w where "main s = Wait k" "k < length (cfg_urls c)" "worklist s = u # w"
      "s' = s\<lparr>worklist := w, main := Wait (Suc k)\<rparr>"
  | k where "main s = Wait k" "length (cfg_urls c) \<le> k" "s' = s\<lparr>main := Returned (results s)\<rparr>"
proof (cases "main s")
  case (Launch i)
  with assms that(1,2) show thesis
    by (simp add: main_step_def split: if_splits)
next
  case (Wait k)
  with assms that(3,4) show thesis
    by (simp add: main_step_def split: if_splits list.splits)
next
  case (Returned r)
  with assms show thesis by (simp add: main_step_def)
qed

lemma in_flight_update:
  assumes "i < length (tasks s)" and "tasks s ! i = (url, pc)"
    and "tasks s' = (tasks s)[i := (url', pc')]"
  shows "in_flight s' + (if holds_token pc then 1 else 0)
     = in_flight s + (if holds_token pc' then 1 else 0)"
  using count_update [OF assms(1), of "\<lambda>(url, pc). holds_token pc" "(url', pc')"] assms(2,3)
  by (simp add: in_flight_def)

lemma gate_inv_main_step:
  assumes "gate_inv c s" and "main_step c s = Some s'"
  shows "gate_inv c s'"
  using assms(2,1)
  by (cases rule: main_stepE) (simp_all add: gate_inv_def in_flight_def)

lemma gate_inv_task_step:
  assumes "gate_inv c s" and "task_step c i s = Some s'"
  shows "gate_inv c s'"
  using assms(2)
proof (cases rule: task_stepE)
  case (Acquire url)
  then show ?thesis
    using assms(1) in_flight_update [of i s url Acquire s' url Fetch]
    by (simp add: gate_inv_def)
next
  case (Fetch_panic url p)
  then show ?thesis
    using assms(1) in_flight_update [of i s url Fetch s' url "Release (Panicking p)"]
    by (simp add: gate_inv_def)
next
  case (Fetch_error url err)
  then show ?thesis
    using assms(1) in_flight_update [of i s url Fetch s' url "Release RequestError"]
    by (simp add: gate_inv_def)
next
  case (Fetch_ok url resp)
  then show ?thesis
    using assms(1) in_flight_update [of i s url Fetch s' url "Parse resp"]
    by (simp add: gate_inv_def)
next
  case (Parse_error url resp data err)
  then show ?thesis
    using assms(1) in_flight_update [of i s url "Parse resp" s' url "Release ParseError"]
    by (simp add: gate_inv_def)
next
  case (Parse_ok url resp data)
  then show ?thesis
    using assms(1) in_flight_update [of i s url "Parse resp" s' url "Lock data"]
    by (simp add: gate_inv_def)
next
  case (Lock url data)
  then show ?thesis
    using assms(1) in_flight_update [of i s url "Lock data" s' url "Append data"]
    by (simp add: gate_inv_def)
next
  case (Append url data)
  then show ?thesis
    using assms(1) in_flight_update [of i s url "Append data" s' url Unlock]
    by (simp add: gate_inv_def)
next
  case (Unlock url)
  then show ?thesis
    using assms(1) in_flight_update [of i s url Unlock s' url Signal]
    by (simp add: gate_inv_def)
next
  case (Signal url)
  then show ?thesis
    using assms(1) in_flight_update [of i s url Signal s' url "Release BodyEnd"]
    by (simp add: gate_inv_def)
next
  case (Release url e)
  then show ?thesis
    using assms(1) in_flight_update [of i s url "Release e" s' url "Done e"]
    by (simp add: gate_inv_def)
qed

lemma gate_inv_reachable:
  assumes "reachable c s"
  shows "gate_inv c s"
  using assms
proof (induction rule: reachable.induct)
  case (init s)
  then show ?case
    by (auto simp: scrapeImages_init_def gate_inv_def in_flight_def split: if_splits)
next
  case (step s a s')
  then show ?case
  proof (cases a)
    case Main
    with step show ?thesis
      using gate_inv_main_step [of c s s'] by (simp add: step_def split: if_splits)
  next
    case (Task i)
    with step show ?thesis
      using gate_inv_task_step [of c s i s'] by (simp add: step_def split: if_splits)
  qed
qed

lemma in_flight_pos:
  assumes "i < length (tasks s)" and "tasks s ! i = (url, pc)" and "holds_token pc"
  shows "0 < in_flight s"
proof -
  have "(url, pc) \<in> set (tasks s)"
    using nth_mem [OF assms(1)] assms(2) by simp
  then have "(url, pc) \<in> set (filter (\<lambda>(url, pc). holds_token pc) (tasks s))"
    using assms(3) by simp
  then show ?thesis
    unfolding in_flight_def by (rule length_pos_if_in_set)
qed

lemma release_enabled:
  assumes "reachable c s" and "i < length (tasks s)" and "tasks s ! i = (url, Release e)"
    and "crashed s = None"
  shows "step c (Task i) s =
    Some (set_pc i url (Done e)
       (s\<lparr>tokens := tokens s - 1,
          crashed := (case e of Panicking p \<Rightarrow> Some p | _ \<Rightarrow> None)\<rparr>))"
proof -
  have "0 < in_flight s" using in_flight_pos [OF assms(2,3)] by simp
  then have "tokens s \<noteq> 0" using gate_inv_reachable [OF assms(1)] by (simp add: gate_inv_def)
  then show ?thesis using assms(2,3,4) by (simp add: step_def task_step_def)
qed

lemma run_reachable:
  "reachable c s \<Longrightarrow> run c sched s = Some s' \<Longrightarrow> reachable c s'"
proof (induction sched arbitrary: s)
  case Nil
  then show ?case by simp
next
  case (Cons a as)
  then show ?case
    by (auto split: option.splits intro: reachable.step)
qed

lemma scrapeImages_reachable:
  "scrapeImages c sched = Some s \<Longrightarrow> reachable c s"
  by (auto simp: scrapeImages_def split: exec.splits intro: run_reachable reachable.init)

lemmas ex_run_defs =
  scrapeImages_def scrapeImages_init_def ex_config_def step_def main_step_def task_step_def
  set_pc_def ex_makeRequest_def drop_rng_def makeRequest_def ex_NewRequest_def ex_Do_def
  randomUserAgent_defs ex_Seed_def ex_Int_def Unix_def index_slice_def length_userAgents Let_def
  signed_modulo_int_def Header_Set_def

lemma count_pc_update:
  assumes "i < length (tasks s)" and "tasks s ! i = (url, pc)"
    and "tasks s' = (tasks s)[i := (url', pc')]"
  shows "count_pc P s' + (if P pc then 1 else 0) = count_pc P s + (if P pc' then 1 else 0)"
  using count_update [OF assms(1), of "\<lambda>(url, pc). P pc" "(url', pc')"] assms(2,3)
  by (simp add: count_pc_def)

lemma signal_inv_main_step:
  assumes "signal_inv c s" and "main_step c s = Some s'"
  shows "signal_inv c s'"
  using assms(2,1)
  by (cases rule: main_stepE) (auto simp: signal_inv_def count_pc_def)

lemma signal_inv_task_step:
  assumes "signal_inv c s" and "task_step c i s = Some s'"
  shows "signal_inv c s'"
  using assms(2)
proof (cases rule: task_stepE)
  case (Acquire url)
  then show ?thesis
    using assms(1) count_pc_update [of i s url Acquire s' url Fetch signalled]
    by (simp add: signal_inv_def)
next
  case (Fetch_panic url p)
  then show ?thesis
    using assms(1) count_pc_update [of i s url Fetch s' url "Release (Panicking p)" signalled]
    by (simp add: signal_inv_def)
next
  case (Fetch_error url err)
  then show ?thesis
    using assms(1) count_pc_update [of i s url Fetch s' url "Release RequestError" signalled]
    by (simp add: signal_inv_def)
next
  case (Fetch_ok url resp)
  then show ?thesis
    using assms(1) count_pc_update [of i s url Fetch s' url "Parse resp" signalled]
    by (simp add: signal_inv_def)
next
  case (Parse_error url resp data err)
  then show ?thesis
    using assms(1) count_pc_update [of i s url "Parse resp" s' url "Release ParseError" signalled]
    by (simp add: signal_inv_def)
next
  case (Parse_ok url resp data)
  then show ?thesis
    using assms(1) count_pc_update [of i s url "Parse resp" s' url "Lock data" signalled]
    by (simp add: signal_inv_def)
next
  case (Lock url data)
  then show ?thesis
    using assms(1) count_pc_update [of i s url "Lock data" s' url "Append data" signalled]
    by (simp add: signal_inv_def)
next
  case (Append url data)
  then show ?thesis
    using assms(1) count_pc_update [of i s url "Append data" s' url Unlock signalled]
    by (simp add: signal_inv_def)
next
  case (Unlock url)
  then show ?thesis
    using assms(1) count_pc_update [of i s url Unlock s' url Signal signalled]
    by (simp add: signal_inv_def)
next
  case (Signal url)
  then show ?thesis
    using assms(1) count_pc_update [of i s url Signal s' url "Release BodyEnd" signalled]
    by (simp add: signal_inv_def)
next
  case (Release url e)
  have "signalled (Release e) = signalled (Done e)" by (cases e) simp_all
  with Release show ?thesis
    using assms(1) count_pc_update [of i s url "Release e" s' url "Done e" signalled]
    by (simp add: signal_inv_def)
qed

lemma signal_inv_reachable:
  assumes "reachable c s"
  shows "signal_inv c s"
  using assms
proof (induction rule: reachable.induct)
  case (init s)
  then show ?case
    by (auto simp: scrapeImages_init_def signal_inv_def count_pc_def split: if_splits)
next
  case (step s a s')
  show ?case
  proof (cases a)
    case Main
    with step show ?thesis
      using signal_inv_main_step [of c s s'] by (simp add: step_def split: if_splits)
  next
    case (Task i)
    with step show ?thesis
      using signal_inv_task_step [of c s i s'] by (simp add: step_def split: if_splits)
  qed
qed

lemma count_pc_le: "count_pc P s \<le> length (tasks s)"
  by (simp add: count_pc_def)

lemma count_pc_all:
  assumes "count_pc P s = length (tasks s)" and "i < length (tasks s)"
  shows "P (snd (tasks s ! i))"
proof -
  have "filter (\<lambda>(url, pc). P pc) (tasks s) = tasks s"
    using assms(1) unfolding count_pc_def by (metis length_filter_less less_irrefl filter_True)
  then have "\<forall>x \<in> set (tasks s). (\<lambda>(url, pc). P pc) x"
    by (metis filter_id_conv)
  then show ?thesis using nth_mem [OF assms(2)] by (auto simp: case_prod_beta)
qed

lemma returned_all_signalled:
  assumes "reachable c s" and "main s = Returned r"
  shows "length (tasks s) = length (cfg_urls c) \<and> count_pc signalled s = length (tasks s)"
  using signal_inv_reachable [OF assms(1)] assms(2) count_pc_le [of signalled s]
  by (simp add: signal_inv_def)

lemma tasks_inv_update:
  assumes "tasks_inv c s" and "i < length (tasks s)" and "tasks s ! i = (url, pc)"
    and "tasks s' = (tasks s)[i := (url, pc')]" and "pc_ok c i pc'"
  shows "tasks_inv c s'"
  unfolding tasks_inv_def
proof (intro allI impI)
  fix j assume j: "j < length (tasks s')"
  show "fst (tasks s' ! j) = cfg_urls c ! j \<and> pc_ok c j (snd (tasks s' ! j))"
  proof (cases "j = i")
    case True
    have "fst (tasks s ! i) = cfg_urls c ! i"
      using assms(1,2) by (simp add: tasks_inv_def)
    then show ?thesis using True assms(2,3,4,5) by simp
  next
    case False
    then show ?thesis using assms(1,4) j by (simp add: tasks_inv_def)
  qed
qed

lemma tasks_invD:
  assumes "tasks_inv c s" and "i < length (tasks s)" and "tasks s ! i = (url, pc)"
  shows "url = cfg_urls c ! i" and "pc_ok c i pc"
  using assms by (auto simp: tasks_inv_def)

lemma tasks_inv_main_step:
  assumes "tasks_inv c s" and "signal_inv c s" and "main_step c s = Some s'"
  shows "tasks_inv c s'"
  using assms(3,1,2)
  by (cases rule: main_stepE) (auto simp: tasks_inv_def signal_inv_def nth_append less_Suc_eq)

lemma tasks_inv_task_step:
  assumes "tasks_inv c s" and "task_step c i s = Some s'"
  shows "tasks_inv c s'"
  using assms(2)
proof (cases rule: task_stepE)
  case (Acquire url)
  then show ?thesis
    using tasks_inv_update [OF assms(1), of i url Acquire s' Fetch] by simp
next
  case (Fetch_panic url p)
  then show ?thesis
    using tasks_inv_update [OF assms(1), of i url Fetch s' "Release (Panicking p)"]
      tasks_invD [OF assms(1), of i url Fetch]
    by (simp add: task_result_def)
next
  case (Fetch_error url err)
  then show ?thesis
    using tasks_inv_update [OF assms(1), of i url Fetch s' "Release RequestError"]
      tasks_invD [OF assms(1), of i url Fetch]
    by (simp add: task_result_def)
next
  case (Fetch_ok url resp)
  then show ?thesis
    using tasks_inv_update [OF assms(1), of i url Fetch s' "Parse resp"]
      tasks_invD [OF assms(1), of i url Fetch]
    by simp
next
  case (Parse_error url resp data err)
  then show ?thesis
    using tasks_inv_update [OF assms(1), of i url "Parse resp" s' "Release ParseError"]
      tasks_invD [OF assms(1), of i url "Parse resp"]
    by (simp add: task_result_def)
next
  case (Parse_ok url resp data)
  then show ?thesis
    using tasks_inv_update [OF assms(1), of i url "Parse resp" s' "Lock data"]
      tasks_invD [OF assms(1), of i url "Parse resp"]
    by (simp add: task_result_def)
next
  case (Lock url data)
  then show ?thesis
    using tasks_inv_update [OF assms(1), of i url "Lock data" s' "Append data"]
      tasks_invD [OF assms(1), of i url "Lock data"]
    by simp
next
  case (Append url data)
  then show ?thesis
    using tasks_inv_update [OF assms(1), of i url "Append data" s' Unlock]
      tasks_invD [OF assms(1), of i url "Append data"]
    by simp
next
  case (Unlock url)
  then show ?thesis
    using tasks_inv_update [OF assms(1), of i url Unlock s' Signal]
      tasks_invD [OF assms(1), of i url Unlock]
    by simp
next
  case (Signal url)
  then show ?thesis
    using tasks_inv_update [OF assms(1), of i url Signal s' "Release BodyEnd"]
      tasks_invD [OF assms(1), of i url Signal]
    by simp
next
  case (Release url e)
  then show ?thesis
    using tasks_inv_update [OF assms(1), of i url "Release e" s' "Done e"]
      tasks_invD [OF assms(1), of i url "Release e"]
    by simp
qed

lemma tasks_inv_reachable:
  assumes "reachable c s"
  shows "tasks_inv c s"
  using assms
proof (induction rule: reachable.induct)
  case (init s)
  then show ?case
    by (auto simp: scrapeImages_init_def tasks_inv_def split: if_splits)
next
  case (step s a s')
  show ?case
  proof (cases a)
    case Main
    with step show ?thesis
      using tasks_inv_main_step [of c s s'] signal_inv_reachable [of c s]
      by (simp add: step_def split: if_splits)
  next
    case (Task i)
    with step show ?thesis
      using tasks_inv_task_step [of c s i s'] by (simp add: step_def split: if_splits)
  qed
qed

lemma returned_no_failure:
  assumes "reachable c s" and "main s = Returned r" and "i < length (cfg_urls c)"
  shows "task_result c i \<noteq> None"
proof -
  have n: "length (tasks s) = length (cfg_urls c)" "count_pc signalled s = length (tasks s)"
    using returned_all_signalled [OF assms(1,2)] by simp_all
  obtain url pc where t: "tasks s ! i = (url, pc)" by (cases "tasks s ! i")
  have "signalled pc" using count_pc_all [OF n(2), of i] assms(3) n(1) t by simp
  moreover have "pc_ok c i pc" using tasks_invD(2) [OF tasks_inv_reachable [OF assms(1)] _ t] assms(3) n(1) by simp
  ultimately show ?thesis
    by (cases pc rule: signalled.cases) simp_all
qed

lemma results_inv_main_step:
  assumes "results_inv c s" and "main_step c s = Some s'"
  shows "results_inv c s'"
  using assms(2,1)
  by (cases rule: main_stepE) (auto simp: results_inv_def count_pc_def)

lemma results_inv_other:
  assumes "results_inv c s" and "i < length (tasks s)" and "tasks s ! i = (url, pc)"
    and "tasks s' = (tasks s)[i := (url, pc')]" and "appended pc = appended pc'"
    and "results s' = results s" and "main s' = main s"
  shows "results_inv c s'"
  using assms(1,5,6,7) count_pc_update [OF assms(2,3,4), of appended]
  by (auto simp: results_inv_def)

lemma results_inv_task_step:
  assumes "results_inv c s" and "tasks_inv c s" and "signal_inv c s"
    and "reachable c s" and "task_step c i s = Some s'"
  shows "results_inv c s'"
  using assms(5)
proof (cases rule: task_stepE)
  case (Acquire url)
  then show ?thesis
    using results_inv_other [OF assms(1), of i url Acquire s' Fetch] by simp
next
  case (Fetch_panic url p)
  then show ?thesis
    using results_inv_other [OF assms(1), of i url Fetch s' "Release (Panicking p)"] by simp
next
  case (Fetch_error url err)
  then show ?thesis
    using results_inv_other [OF assms(1), of i url Fetch s' "Release RequestError"] by simp
next
  case (Fetch_ok url resp)
  then show ?thesis
    using results_inv_other [OF assms(1), of i url Fetch s' "Parse resp"] by simp
next
  case (Parse_error url resp data err)
  then show ?thesis
    using results_inv_other [OF assms(1), of i url "Parse resp" s' "Release ParseError"] by simp
next
  case (Parse_ok url resp data)
  then show ?thesis
    using results_inv_other [OF assms(1), of i url "Parse resp" s' "Lock data"] by simp
next
  case (Lock url data)
  then show ?thesis
    using results_inv_other [OF assms(1), of i url "Lock data" s' "Append data"] by simp
next
  case (Append url data)
  have le: "length (tasks s) \<le> length (cfg_urls c)"
    using assms(3) by (cases "main s") (simp_all add: signal_inv_def)
  have ok: "task_result c i = Some data"
    using tasks_invD(2) [OF assms(2) Append(1,2)] by simp
  have nr: "returned_ok (main s) rs" for rs
  proof (cases "main s")
    case (Returned r)
    have "count_pc signalled s = length (tasks s)"
      using returned_all_signalled [OF assms(4) Returned] by simp
    from count_pc_all [OF this Append(1)] Append(2) show ?thesis by simp
  qed simp_all
  have cnt: "count_pc appended s' = Suc (count_pc appended s)"
    using count_pc_update [of i s url "Append data" s' url Unlock appended] Append by simp
  have ex: "list_ex (\<lambda>i. task_result c i = Some data) [0..<length (cfg_urls c)]"
    using ok Append(1) le by (auto simp: list_ex_iff)
  show ?thesis
    using assms(1) Append(3) cnt ex nr [of "results s @ [data]"]
    by (simp add: results_inv_def)
next
  case (Unlock url)
  then show ?thesis
    using results_inv_other [OF assms(1), of i url Unlock s' Signal] by simp
next
  case (Signal url)
  then show ?thesis
    using results_inv_other [OF assms(1), of i url Signal s' "Release BodyEnd"] by simp
next
  case (Release url e)
  have "appended (Release e) = appended (Done e)" by (cases e) simp_all
  with Release show ?thesis
    using results_inv_other [OF assms(1), of i url "Release e" s' "Done e"] by simp
qed

lemma results_inv_reachable:
  assumes "reachable c s"
  shows "results_inv c s"
  using assms
proof (induction rule: reachable.induct)
  case (init s)
  then show ?case
    by (auto simp: scrapeImages_init_def results_inv_def count_pc_def split: if_splits)
next
  case (step s a s')
  show ?case
  proof (cases a)
    case Main
    with step show ?thesis
      using results_inv_main_step [of c s s'] by (simp add: step_def split: if_splits)
  next
    case (Task i)
    with step show ?thesis
      using results_inv_task_step [of c s i s'] tasks_inv_reachable [of c s]
        signal_inv_reachable [of c s]
      by (simp add: step_def split: if_splits)
  qed
qed

lemma count_pc_nth:
  "count_pc P s = length (filter (\<lambda>i. P (snd (tasks s ! i))) [0..<length (tasks s)])"
proof -
  have "filter (\<lambda>(url, pc). P pc) (map ((!) (tasks s)) [0..<length (tasks s)])
      = map ((!) (tasks s)) (filter (\<lambda>i. P (snd (tasks s ! i))) [0..<length (tasks s)])"
    by (simp add: filter_map comp_def case_prod_beta)
  then show ?thesis
    unfolding count_pc_def by (metis length_map map_nth)
qed

lemma all_done_results:
  assumes "reachable c s" and "length (tasks s) = length (cfg_urls c)"
    and "list_all (\<lambda>(url, pc). is_Done pc) (tasks s)"
  shows "length (results s) + failures c = length (cfg_urls c)"
proof -
  have eq: "appended (snd (tasks s ! i)) = (task_result c i \<noteq> None)"
    if "i < length (tasks s)" for i
  proof -
    obtain url pc where t: "tasks s ! i = (url, pc)" by (cases "tasks s ! i")
    have "is_Done pc"
      using assms(3) nth_mem [OF that] t by (auto simp: list_all_iff)
    then obtain e where e: "pc = Done e" by (cases pc) simp_all
    have "pc_ok c i pc" using tasks_invD(2) [OF tasks_inv_reachable [OF assms(1)] that t] .
    then show ?thesis using t e by (cases e) simp_all
  qed
  have "count_pc appended s
      = length (filter (\<lambda>i. task_result c i \<noteq> None) [0..<length (tasks s)])"
    unfolding count_pc_nth
    by (rule arg_cong [where f = length], rule filter_cong) (simp_all add: eq)
  then have "length (results s)
      = length (filter (\<lambda>i. task_result c i \<noteq> None) [0..<length (cfg_urls c)])"
    using results_inv_reachable [OF assms(1)] assms(2) by (simp add: results_inv_def)
  then show ?thesis
    using sum_length_filter_compl [of "\<lambda>i. task_result c i \<noteq> None" "[0..<length (cfg_urls c)]"]
    by (simp add: failures_def)
qed

lemma returned_results:
  assumes "reachable c s" and "main s = Returned r"
  shows "r = results s \<and> failures c = 0 \<and> length r = length (cfg_urls c)"
proof -
  have n: "length (tasks s) = length (cfg_urls c)" "count_pc signalled s = length (tasks s)"
    using returned_all_signalled [OF assms] by simp_all
  have r: "r = results s" "length (results s) = count_pc appended s"
    using results_inv_reachable [OF assms(1)] assms(2) by (simp_all add: results_inv_def)
  have "filter (\<lambda>i. task_result c i = None) [0..<length (cfg_urls c)] = []"
    using returned_no_failure [OF assms] by (simp add: filter_empty_conv)
  then have f: "failures c = 0" by (simp add: failures_def)
  have "appended (snd (tasks s ! i))" if "i < length (tasks s)" for i
    using count_pc_all [OF n(2) that] by (cases "snd (tasks s ! i)" rule: signalled.cases) simp_all
  then have "filter (\<lambda>i. appended (snd (tasks s ! i))) [0..<length (tasks s)] = [0..<length (tasks s)]"
    by (simp add: filter_id_conv)
  then have "count_pc appended s = length (tasks s)"
    unfolding count_pc_nth by simp
  then show ?thesis using r f n(1) by simp
qed

lemma count_pc_less:
  assumes "i < length (tasks s)" and "tasks s ! i = (url, pc)" and "\<not> P pc"
  shows "count_pc P s < length (tasks s)"
proof -
  have "(url, pc) \<in> set (tasks s)"
    using nth_mem [OF assms(1)] assms(2) by simp
  then show ?thesis
    unfolding count_pc_def using assms(3) by (intro length_filter_less [of "(url, pc)"]) simp_all
qed

lemma signal_enabled:
  assumes "reachable c s" and "i < length (tasks s)" and "tasks s ! i = (url, Signal)"
  shows "length (worklist s) < length (cfg_urls c)"
proof -
  have inv: "signal_inv c s" using signal_inv_reachable [OF assms(1)] .
  have "count_pc signalled s < length (tasks s)"
    using count_pc_less [OF assms(2,3), of signalled] by simp
  moreover have "length (tasks s) \<le> length (cfg_urls c)"
    using inv by (cases "main s") (simp_all add: signal_inv_def)
  moreover have "length (worklist s) \<le> count_pc signalled s"
    using inv by (simp add: signal_inv_def)
  ultimately show ?thesis by simp
qed

lemma exit_then_release:
  assumes r: "reachable c s" and i: "i < length (tasks s)" and t: "tasks s ! i = (url, pc)"
    and h: "holds_token pc"
    and st: "step c (Task i) s = Some s1"
    and t1: "tasks s1 = (tasks s)[i := (url, Release e)]"
    and c1: "crashed s1 = None"
  shows "\<exists>s1 s2. step c (Task i) s = Some s1 \<and> tasks s1 ! i = (url, Release e)
      \<and> in_flight s1 = in_flight s
      \<and> step c (Task i) s1 = Some s2 \<and> tasks s2 ! i = (url, Done e)
      \<and> Suc (in_flight s2) = in_flight s
      \<and> crashed s2 = (case e of Panicking p \<Rightarrow> Some p | _ \<Rightarrow> None)"
proof -
  let ?s2 = "set_pc i url (Done e)
       (s1\<lparr>tokens := tokens s1 - 1,
          crashed := (case e of Panicking p \<Rightarrow> Some p | _ \<Rightarrow> None)\<rparr>)"
  have r1: "reachable c s1" using r st by (rule reachable.step)
  have i1: "i < length (tasks s1)" using i t1 by simp
  have p1: "tasks s1 ! i = (url, Release e)" using i t1 by simp
  have f1: "in_flight s1 = in_flight s"
    using in_flight_update [OF i t t1] h by simp
  have s2: "step c (Task i) s1 = Some ?s2"
    using release_enabled [OF r1 i1 p1 c1] .
  have p2: "tasks ?s2 ! i = (url, Done e)" using i1 by simp
  have f2: "Suc (in_flight ?s2) = in_flight s1"
    using in_flight_update [of i s1 url "Release e" ?s2 url "Done e"] i1 p1 by simp
  have c2: "crashed ?s2 = (case e of Panicking p \<Rightarrow> Some p | _ \<Rightarrow> None)"
    by simp
  show ?thesis
    using st p1 f1 s2 p2 f2 c2 by (intro exI [of _ s1] exI [of _ ?s2] conjI) simp_all
qed

lemma acquire_step:
  assumes r: "reachable c s" and i: "i < length (tasks s)" and t: "tasks s ! i = (url, Acquire)"
    and c: "crashed s = None"
  shows "if int (in_flight s) < cfg_concurrency c
         then (\<exists>s1. step c (Task i) s = Some s1 \<and> tasks s1 ! i = (url, Fetch)
                 \<and> in_flight s1 = Suc (in_flight s))
         else step c (Task i) s = None"
proof -
  have g: "tokens s = in_flight s" using gate_inv_reachable [OF r] by (simp add: gate_inv_def)
  show ?thesis
  proof (cases "int (in_flight s) < cfg_concurrency c")
    case True
    let ?s1 = "set_pc i url Fetch (s\<lparr>tokens := Suc (tokens s)\<rparr>)"
    have st: "step c (Task i) s = Some ?s1"
      using True g i t c by (simp add: step_def task_step_def)
    have "in_flight ?s1 = Suc (in_flight s)"
      using in_flight_update [of i s url Acquire ?s1 url Fetch] i t by simp
    then show ?thesis using True st i by simp
  next
    case False
    then show ?thesis using g i t c by (simp add: step_def task_step_def)
  qed
qed

lemma fetch_error_exit:
  assumes "reachable c s" and "i < length (tasks s)" and "tasks s ! i = (url, Fetch)"
    and "crashed s = None" and "cfg_makeRequest c i url = Return (Inl err)"
  shows "\<exists>s1 s2. step c (Task i) s = Some s1 \<and> tasks s1 ! i = (url, Release RequestError)
      \<and> in_flight s1 = in_flight s
      \<and> step c (Task i) s1 = Some s2 \<and> tasks s2 ! i = (url, Done RequestError)
      \<and> Suc (in_flight s2) = in_flight s
      \<and> crashed s2 = None"
proof -
  have st: "step c (Task i) s = Some (set_pc i url (Release RequestError) s)"
    using assms by (simp add: step_def task_step_def)
  from exit_then_release [OF assms(1,2,3) _ st, of RequestError] assms(4)
  show ?thesis by simp
qed

lemma fetch_panic_exit:
  assumes "reachable c s" and "i < length (tasks s)" and "tasks s ! i = (url, Fetch)"
    and "crashed s = None" and "cfg_makeRequest c i url = Panic p"
  shows "\<exists>s1 s2. step c (Task i) s = Some s1 \<and> tasks s1 ! i = (url, Release (Panicking p))
      \<and> in_flight s1 = in_flight s
      \<and> step c (Task i) s1 = Some s2 \<and> tasks s2 ! i = (url, Done (Panicking p))
      \<and> Suc (in_flight s2) = in_flight s
      \<and> crashed s2 = Some p"
proof -
  have st: "step c (Task i) s = Some (set_pc i url (Release (Panicking p)) s)"
    using assms by (simp add: step_def task_step_def)
  from exit_then_release [OF assms(1,2,3) _ st, of "Panicking p"] assms(4)
  show ?thesis by simp
qed

lemma parse_error_exit:
  assumes "reachable c s" and "i < length (tasks s)" and "tasks s ! i = (url, Parse resp)"
    and "crashed s = None" and "cfg_parser c resp = (data, Some err)"
  shows "\<exists>s1 s2. step c (Task i) s = Some s1 \<and> tasks s1 ! i = (url, Release ParseError)
      \<and> in_flight s1 = in_flight s
      \<and> step c (Task i) s1 = Some s2 \<and> tasks s2 ! i = (url, Done ParseError)
      \<and> Suc (in_flight s2) = in_flight s
      \<and> crashed s2 = None"
proof -
  have st: "step c (Task i) s = Some (set_pc i url (Release ParseError) s)"
    using assms by (simp add: step_def task_step_def)
  from exit_then_release [OF assms(1,2,3) _ st, of ParseError] assms(4)
  show ?thesis by simp
qed

lemma signal_exit:
  assumes "reachable c s" and "i < length (tasks s)" and "tasks s ! i = (url, Signal)"
    and "crashed s = None"
  shows "\<exists>s1 s2. step c (Task i) s = Some s1 \<and> tasks s1 ! i = (url, Release BodyEnd)
      \<and> in_flight s1 = in_flight s
      \<and> step c (Task i) s1 = Some s2 \<and> tasks s2 ! i = (url, Done BodyEnd)
      \<and> Suc (in_flight s2) = in_flight s
      \<and> crashed s2 = None"
proof -
  have st: "step c (Task i) s
      = Some (set_pc i url (Release BodyEnd) (s\<lparr>worklist := worklist s @ [url]\<rparr>))"
    using assms signal_enabled [OF assms(1,2,3)] by (simp add: step_def task_step_def)
  from exit_then_release [OF assms(1,2,3) _ st, of BodyEnd] assms(4)
  show ?thesis by simp
qed

lemmas ex_result_defs =
  task_result_def failures_def stuck_def GetMediaData_def NewDocumentFromResponse_def
  ex_Parse_def ex_doc_def Find_def sel_img_def sel_meta_description_def Selection_Attr_def

text \<open>
  C3. In every state that a run of \<open>scrapeImages\<close> reaches, the goroutines in flight
  are exactly as many as the values buffered in \<open>tokens\<close>, and no more than the
  budget. A goroutine takes its unit before it fetches: at \<open>tokens <- struct{}{}\<close> it
  is blocked while the budget is used up, and otherwise moves on to the fetch and is
  counted. It gives the unit back whichever way it leaves its body: after a failed
  request, after a panic of the request, after a failed extraction and after its signal,
  its next two steps are the exit and the deferred receive, neither is blocked, and they
  end the goroutine and take it out of the count.
  (A run exists for every budget that is not negative.)
\<close>

theorem in_flight_bounded:
  assumes "reachable c s"
  shows "int (in_flight s) \<le> cfg_concurrency c \<and> in_flight s = tokens s
    \<and> (\<forall>i url. i < length (tasks s) \<and> tasks s ! i = (url, Acquire) \<and> crashed s = None \<longrightarrow>
         (if int (in_flight s) < cfg_concurrency c
          then (\<exists>s1. step c (Task i) s = Some s1 \<and> tasks s1 ! i = (url, Fetch)
                  \<and> in_flight s1 = Suc (in_flight s))
          else step c (Task i) s = None))
    \<and> (\<forall>i url err. i < length (tasks s) \<and> tasks s ! i = (url, Fetch) \<and> crashed s = None
           \<and> cfg_makeRequest c i url = Return (Inl err) \<longrightarrow>
         (\<exists>s1 s2. step c (Task i) s = Some s1 \<and> tasks s1 ! i = (url, Release RequestError)
            \<and> in_flight s1 = in_flight s
            \<and> step c (Task i) s1 = Some s2 \<and> tasks s2 ! i = (url, Done RequestError)
            \<and> Suc (in_flight s2) = in_flight s \<and> crashed s2 = None))
    \<and> (\<forall>i url p. i < length (tasks s) \<and> tasks s ! i = (url, Fetch) \<and> crashed s = None
           \<and> cfg_makeRequest c i url = Panic p \<longrightarrow>
         (\<exists>s1 s2. step c (Task i) s = Some s1 \<and> tasks s1 ! i = (url, Release (Panicking p))
            \<and> in_flight s1 = in_flight s
            \<and> step c (Task i) s1 = Some s2 \<and> tasks s2 ! i = (url, Done (Panicking p))
            \<and> Suc (in_flight s2) = in_flight s \<and> crashed s2 = Some p))
    \<and> (\<forall>i url resp data err. i < length (tasks s) \<and> tasks s ! i = (url, Parse resp)
           \<and> crashed s = None \<and> cfg_parser c resp = (data, Some err) \<longrightarrow>
         (\<exists>s1 s2. step c (Task i) s = Some s1 \<and> tasks s1 ! i = (url, Release ParseError)
            \<and> in_flight s1 = in_flight s
            \<and> step c (Task i) s1 = Some s2 \<and> tasks s2 ! i = (url, Done ParseError)
            \<and> Suc (in_flight s2) = in_flight s \<and> crashed s2 = None))
    \<and> (\<forall>i url. i < length (tasks s) \<and> tasks s ! i = (url, Signal) \<and> crashed s = None \<longrightarrow>
         (\<exists>s1 s2. step c (Task i) s = Some s1 \<and> tasks s1 ! i = (url, Release BodyEnd)
            \<and> in_flight s1 = in_flight s
            \<and> step c (Task i) s1 = Some s2 \<and> tasks s2 ! i = (url, Done BodyEnd)
            \<and> Suc (in_flight s2) = in_flight s \<and> crashed s2 = None))
    \<and> (\<forall>i url e. i < length (tasks s) \<and> tasks s ! i = (url, Release e) \<and> crashed s = None \<longrightarrow>
         (\<exists>s'. step c (Task i) s = Some s' \<and> tasks s' ! i = (url, Done e)
            \<and> Suc (in_flight s') = in_flight s))"
proof -
  have g: "tokens s = in_flight s" "int (tokens s) \<le> cfg_concurrency c"
    using gate_inv_reachable [OF assms] by (simp_all add: gate_inv_def)
  have r: "\<exists>s'. step c (Task i) s = Some s' \<and> tasks s' ! i = (url, Done e)
            \<and> Suc (in_flight s') = in_flight s"
    if h: "i < length (tasks s)" "tasks s ! i = (url, Release e)" "crashed s = None"
    for i url e
  proof -
    let ?s' = "set_pc i url (Done e)
       (s\<lparr>tokens := tokens s - 1,
          crashed := (case e of Panicking p \<Rightarrow> Some p | _ \<Rightarrow> None)\<rparr>)"
    have "step c (Task i) s = Some ?s'"
      using release_enabled [OF assms h] .
    moreover have "tasks ?s' ! i = (url, Done e)"
      using h(1) by simp
    moreover have "Suc (in_flight ?s') = in_flight s"
      using in_flight_update [of i s url "Release e" ?s' url "Done e"] h by simp
    ultimately show ?thesis by blast
  qed
  show ?thesis
  proof (intro conjI allI impI)
    show "int (in_flight s) \<le> cfg_concurrency c" using g by simp
  next
    show "in_flight s = tokens s" using g by simp
  next
    fix i url
    assume "i < length (tasks s) \<and> tasks s ! i = (url, Acquire) \<and> crashed s = None"
    then show "if int (in_flight s) < cfg_concurrency c
          then (\<exists>s1. step c (Task i) s = Some s1 \<and> tasks s1 ! i = (url, Fetch)
                  \<and> in_flight s1 = Suc (in_flight s))
          else step c (Task i) s = None"
      using acquire_step [OF assms, of i url] by simp
  next
    fix i url err
    assume "i < length (tasks s) \<and> tasks s ! i = (url, Fetch) \<and> crashed s = None
           \<and> cfg_makeRequest c i url = Return (Inl err)"
    then show "\<exists>s1 s2. step c (Task i) s = Some s1 \<and> tasks s1 ! i = (url, Release RequestError)
            \<and> in_flight s1 = in_flight s
            \<and> step c (Task i) s1 = Some s2 \<and> tasks s2 ! i = (url, Done RequestError)
            \<and> Suc (in_flight s2) = in_flight s \<and> crashed s2 = None"
      using fetch_error_exit [OF assms, of i url err] by simp
  next
    fix i url p
    assume "i < length (tasks s) \<and> tasks s ! i = (url, Fetch) \<and> crashed s = None
           \<and> cfg_makeRequest c i url = Panic p"
    then show "\<exists>s1 s2. step c (Task i) s = Some s1 \<and> tasks s1 ! i = (url, Release (Panicking p))
            \<and> in_flight s1 = in_flight s
            \<and> step c (Task i) s1 = Some s2 \<and> tasks s2 ! i = (url, Done (Panicking p))
            \<and> Suc (in_flight s2) = in_flight s \<and> crashed s2 = Some p"
      using fetch_panic_exit [OF assms, of i url p] by simp
  next
    fix i url resp data err
    assume "i < length (tasks s) \<and> tasks s ! i = (url, Parse resp)
           \<and> crashed s = None \<and> cfg_parser c resp = (data, Some err)"
    then show "\<exists>s1 s2. step c (Task i) s = Some s1 \<and> tasks s1 ! i = (url, Release ParseError)
            \<and> in_flight s1 = in_flight s
            \<and> step c (Task i) s1 = Some s2 \<and> tasks s2 ! i = (url, Done ParseError)
            \<and> Suc (in_flight s2) = in_flight s \<and> crashed s2 = None"
      using parse_error_exit [OF assms, of i url resp data err] by simp
  next
    fix i url
    assume "i < length (tasks s) \<and> tasks s ! i = (url, Signal) \<and> crashed s = None"
    then show "\<exists>s1 s2. step c (Task i) s = Some s1 \<and> tasks s1 ! i = (url, Release BodyEnd)
            \<and> in_flight s1 = in_flight s
            \<and> step c (Task i) s1 = Some s2 \<and> tasks s2 ! i = (url, Done BodyEnd)
            \<and> Suc (in_flight s2) = in_flight s \<and> crashed s2 = None"
      using signal_exit [OF assms, of i url] by simp
  next
    fix i url e
    assume "i < length (tasks s) \<and> tasks s ! i = (url, Release e) \<and> crashed s = None"
    then show "\<exists>s'. step c (Task i) s = Some s' \<and> tasks s' ! i = (url, Done e)
            \<and> Suc (in_flight s') = in_flight s"
      using r [of i url e] by simp
  qed
qed

theorem in_flight_bounded_witness:
  "(\<exists>s. scrapeImages (ex_config [''http://a/'', ''http://down/'', ''http://b/''] 1)
          [Main, Main, Main, Main, Task 0, Task 0] = Some s
     \<and> in_flight s = 1
     \<and> int (in_flight s) \<le> cfg_concurrency (ex_config [''http://a/'', ''http://down/'', ''http://b/''] 1)
     \<and> step (ex_config [''http://a/'', ''http://down/'', ''http://b/''] 1) (Task 1) s = None
     \<and> step (ex_config [''http://a/'', ''http://down/'', ''http://b/''] 1) (Task 2) s = None)
   \<and> (\<exists>s s1 s2. scrapeImages (ex_config [''http://a/'', ''http://down/'', ''http://b/''] 1)
          ex_sched_request_fails = Some s
        \<and> tasks s ! 1 = (''http://down/'', Fetch) \<and> in_flight s = 1
        \<and> step (ex_config [''http://a/'', ''http://down/'', ''http://b/''] 1) (Task 1) s = Some s1
        \<and> tasks s1 ! 1 = (''http://down/'', Release RequestError) \<and> in_flight s1 = 1
        \<and> step (ex_config [''http://a/'', ''http://down/'', ''http://b/''] 1) (Task 1) s1 = Some s2
        \<and> tasks s2 ! 1 = (''http://down/'', Done RequestError) \<and> in_flight s2 = 0)
   \<and> (\<exists>s resp s1 s2. scrapeImages (ex_config_unreadable [''http://a/''] 1)
          [Main, Main, Task 0, Task 0] = Some s
        \<and> tasks s ! 0 = (''http://a/'', Parse resp) \<and> in_flight s = 1
        \<and> step (ex_config_unreadable [''http://a/''] 1) (Task 0) s = Some s1
        \<and> tasks s1 ! 0 = (''http://a/'', Release ParseError) \<and> in_flight s1 = 1
        \<and> step (ex_config_unreadable [''http://a/''] 1) (Task 0) s1 = Some s2
        \<and> tasks s2 ! 0 = (''http://a/'', Done ParseError) \<and> in_flight s2 = 0)"
proof -
  let ?c = "ex_config [''http://a/'', ''http://down/'', ''http://b/''] 1"
  let ?u = "ex_config_unreadable [''http://a/''] 1"
  have "\<exists>s. scrapeImages ?c [Main, Main, Main, Main, Task 0, Task 0] = Some s
      \<and> tokens s = 1 \<and> step ?c (Task 1) s = None \<and> step ?c (Task 2) s = None"
    by (simp add: ex_run_defs)
  then obtain s where s: "scrapeImages ?c [Main, Main, Main, Main, Task 0, Task 0] = Some s"
    "tokens s = 1" "step ?c (Task 1) s = None" "step ?c (Task 2) s = None"
    by (elim exE conjE) (rule that)
  have rs: "reachable ?c s" using s(1) by (rule scrapeImages_reachable)
  have a1: "in_flight s = 1" "int (in_flight s) \<le> cfg_concurrency ?c"
    using in_flight_bounded [OF rs, THEN conjunct1]
      in_flight_bounded [OF rs, THEN conjunct2, THEN conjunct1] s(2) by simp_all
  have A: "\<exists>s. scrapeImages ?c [Main, Main, Main, Main, Task 0, Task 0] = Some s
     \<and> in_flight s = 1 \<and> int (in_flight s) \<le> cfg_concurrency ?c
     \<and> step ?c (Task 1) s = None \<and> step ?c (Task 2) s = None"
    using s(1) a1 s(3,4) by (intro exI [of _ s] conjI)

  have "\<exists>t. scrapeImages ?c ex_sched_request_fails = Some t
      \<and> length (tasks t) = 3 \<and> tasks t ! 1 = (''http://down/'', Fetch) \<and> crashed t = None
      \<and> tokens t = 1
      \<and> cfg_makeRequest ?c 1 ''http://down/'' = Return (Inl (Error ''connection refused''))"
    by (simp add: ex_sched_request_fails_def ex_run_defs ex_result_defs)
  then obtain t where t: "scrapeImages ?c ex_sched_request_fails = Some t"
    "length (tasks t) = 3" "tasks t ! 1 = (''http://down/'', Fetch)" "crashed t = None"
    "tokens t = 1"
    "cfg_makeRequest ?c 1 ''http://down/'' = Return (Inl (Error ''connection refused''))"
    by (elim exE conjE) (rule that)
  have rt: "reachable ?c t" using t(1) by (rule scrapeImages_reachable)
  have ft: "in_flight t = 1"
    using in_flight_bounded [OF rt, THEN conjunct2, THEN conjunct1] t(5) by simp
  have pt: "1 < length (tasks t) \<and> tasks t ! 1 = (''http://down/'', Fetch) \<and> crashed t = None
      \<and> cfg_makeRequest ?c 1 ''http://down/'' = Return (Inl (Error ''connection refused''))"
    using t by simp
  have "\<exists>s1 s2. step ?c (Task 1) t = Some s1
      \<and> tasks s1 ! 1 = (''http://down/'', Release RequestError) \<and> in_flight s1 = in_flight t
      \<and> step ?c (Task 1) s1 = Some s2 \<and> tasks s2 ! 1 = (''http://down/'', Done RequestError)
      \<and> Suc (in_flight s2) = in_flight t \<and> crashed s2 = None"
    using in_flight_bounded [OF rt, THEN conjunct2, THEN conjunct2, THEN conjunct2,
        THEN conjunct1, rule_format, OF pt] .
  then obtain t1 t2 where t12: "step ?c (Task 1) t = Some t1"
    "tasks t1 ! 1 = (''http://down/'', Release RequestError)" "in_flight t1 = in_flight t"
    "step ?c (Task 1) t1 = Some t2" "tasks t2 ! 1 = (''http://down/'', Done RequestError)"
    "Suc (in_flight t2) = in_flight t"
    by (elim exE conjE) (rule that)
  have ft12: "in_flight t1 = 1" "in_flight t2 = 0" using t12(3,6) ft by simp_all
  have B: "\<exists>s s1 s2. scrapeImages ?c ex_sched_request_fails = Some s
        \<and> tasks s ! 1 = (''http://down/'', Fetch) \<and> in_flight s = 1
        \<and> step ?c (Task 1) s = Some s1
        \<and> tasks s1 ! 1 = (''http://down/'', Release RequestError) \<and> in_flight s1 = 1
        \<and> step ?c (Task 1) s1 = Some s2
        \<and> tasks s2 ! 1 = (''http://down/'', Done RequestError) \<and> in_flight s2 = 0"
    using t(1,3) ft t12(1,2) ft12(1) t12(4,5) ft12(2)
    by (intro exI [of _ t] exI [of _ t1] exI [of _ t2] conjI)

  have "\<exists>v resp. scrapeImages ?u [Main, Main, Task 0, Task 0] = Some v
      \<and> length (tasks v) = 1 \<and> tasks v ! 0 = (''http://a/'', Parse resp) \<and> crashed v = None
      \<and> tokens v = 1
      \<and> cfg_parser ?u resp = (MediaData_zero, Some (Error ''unreadable body''))"
    by (simp add: ex_config_unreadable_def ex_makeRequest_unreadable_def ex_run_defs ex_result_defs)
  then obtain v resp where v: "scrapeImages ?u [Main, Main, Task 0, Task 0] = Some v"
    "length (tasks v) = 1" "tasks v ! 0 = (''http://a/'', Parse resp)" "crashed v = None"
    "tokens v = 1"
    "cfg_parser ?u resp = (MediaData_zero, Some (Error ''unreadable body''))"
    by (elim exE conjE) (rule that)
  have rv: "reachable ?u v" using v(1) by (rule scrapeImages_reachable)
  have fv: "in_flight v = 1"
    using in_flight_bounded [OF rv, THEN conjunct2, THEN conjunct1] v(5) by simp
  have pv: "0 < length (tasks v) \<and> tasks v ! 0 = (''http://a/'', Parse resp) \<and> crashed v = None
      \<and> cfg_parser ?u resp = (MediaData_zero, Some (Error ''unreadable body''))"
    using v by simp
  have "\<exists>s1 s2. step ?u (Task 0) v = Some s1
      \<and> tasks s1 ! 0 = (''http://a/'', Release ParseError) \<and> in_flight s1 = in_flight v
      \<and> step ?u (Task 0) s1 = Some s2 \<and> tasks s2 ! 0 = (''http://a/'', Done ParseError)
      \<and> Suc (in_flight s2) = in_flight v \<and> crashed s2 = None"
    using in_flight_bounded [OF rv, THEN conjunct2, THEN conjunct2, THEN conjunct2,
        THEN conjunct2, THEN conjunct2, THEN conjunct1, rule_format, OF pv] .
  then obtain v1 v2 where v12: "step ?u (Task 0) v = Some v1"
    "tasks v1 ! 0 = (''http://a/'', Release ParseError)" "in_flight v1 = in_flight v"
    "step ?u (Task 0) v1 = Some v2" "tasks v2 ! 0 = (''http://a/'', Done ParseError)"
    "Suc (in_flight v2) = in_flight v"
    by (elim exE conjE) (rule that)
  have fv12: "in_flight v1 = 1" "in_flight v2 = 0" using v12(3,6) fv by simp_all
  have C: "\<exists>s resp s1 s2. scrapeImages ?u [Main, Main, Task 0, Task 0] = Some s
        \<and> tasks s ! 0 = (''http://a/'', Parse resp) \<and> in_flight s = 1
        \<and> step ?u (Task 0) s = Some s1
        \<and> tasks s1 ! 0 = (''http://a/'', Release ParseError) \<and> in_flight s1 = 1
        \<and> step ?u (Task 0) s1 = Some s2
        \<and> tasks s2 ! 0 = (''http://a/'', Done ParseError) \<and> in_flight s2 = 0"
    using v(1,3) fv v12(1,2) fv12(1) v12(4,5) fv12(2)
    by (intro exI [of _ v] exI [of _ resp] exI [of _ v1] exI [of _ v2] conjI)
  show ?thesis using A B C by (intro conjI)
qed

lemma task_result_GetMediaData:
  assumes "cfg_parser c = GetMediaData html_Parse" and "task_result c i = Some d"
  shows "\<exists>resp. cfg_makeRequest c i (cfg_urls c ! i) = Return (Inr resp)
    \<and> URL d = req_URL (resp_Request resp) \<and> StatusCode d = resp_StatusCode resp"
proof (cases "cfg_makeRequest c i (cfg_urls c ! i)")
  case (Panic p)
  then show ?thesis using assms(2) by (simp add: task_result_def)
next
  case (Return v)
  show ?thesis
  proof (cases v)
    case (Inl err)
    then show ?thesis using assms(2) Return by (simp add: task_result_def)
  next
    case (Inr resp)
    have d: "GetMediaData html_Parse resp = (d, None)"
      using assms Return Inr by (simp add: task_result_def split: prod.splits option.splits)
    show ?thesis
    proof (cases "html_Parse (resp_Body resp)")
      case (Inl e)
      then show ?thesis using d GetMediaData_err [of html_Parse resp e] by simp
    next
      case (Inr doc)
      then show ?thesis
        using d GetMediaData_ok [of html_Parse resp doc] Return \<open>v = Inr resp\<close> by auto
    qed
  qed
qed

text \<open>
  C1. A goroutine whose request or extraction fails leaves by a \<open>return\<close> that
  comes before \<open>worklist <- url\<close>, so it never signals; the caller waits for one
  signal per URL. Hence, as soon as one URL fails, no run of \<open>scrapeImages\<close> reaches
  its \<open>return\<close>: in the run below every goroutine has ended, the caller is blocked
  in its receive and nobody can move.
\<close>

theorem scrapeImages_never_returns_after_failure:
  assumes "i < length (cfg_urls c)" and "task_result c i = None" and "reachable c s"
  shows "main s \<noteq> Returned r"
proof
  assume "main s = Returned r"
  from returned_no_failure [OF assms(3) this assms(1)] assms(2) show False by simp
qed

theorem scrapeImages_never_returns_after_failure_witness:
  "task_result (ex_config [''http://down/''] 1) 0 = None
   \<and> (\<exists>s. scrapeImages (ex_config [''http://down/''] 1) [Main, Main, Task 0, Task 0, Task 0] = Some s
        \<and> tasks s = [(''http://down/'', Done RequestError)]
        \<and> worklist s = [] \<and> main s = Wait 0 \<and> crashed s = None
        \<and> stuck (ex_config [''http://down/''] 1) s
        \<and> (\<forall>r. main s \<noteq> Returned r))"
proof -
  let ?c = "ex_config [''http://down/''] 1"
  have f: "task_result ?c 0 = None"
    by (simp add: ex_run_defs ex_result_defs)
  have "\<exists>s. scrapeImages ?c [Main, Main, Task 0, Task 0, Task 0] = Some s
        \<and> tasks s = [(''http://down/'', Done RequestError)]
        \<and> worklist s = [] \<and> main s = Wait 0 \<and> crashed s = None \<and> stuck ?c s"
    by (simp add: ex_run_defs ex_result_defs)
  then obtain s where s: "scrapeImages ?c [Main, Main, Task 0, Task 0, Task 0] = Some s"
    "tasks s = [(''http://down/'', Done RequestError)]"
    "worklist s = []" "main s = Wait 0" "crashed s = None" "stuck ?c s"
    by blast
  have r: "reachable ?c s" using s(1) by (rule scrapeImages_reachable)
  have l: "0 < length (cfg_urls ?c)" by (simp add: ex_config_def)
  have n: "\<forall>r. main s \<noteq> Returned r"
    using scrapeImages_never_returns_after_failure [OF l f r] by simp
  show ?thesis
    using f s n by (intro conjI exI [of _ s]) simp_all
qed

text \<open>
  C2. In every state that a run reaches, each record of \<open>results\<close> is the record
  that the parser made of the response to one of the URLs that do not fail; once every
  goroutine has ended, \<open>results\<close> holds exactly \<open>N - K\<close> records; what
  \<open>scrapeImages\<close> returns, when it returns, is \<open>results\<close>. With \<open>GetMediaData\<close>
  as the parser the \<open>URL\<close> of a record is the URL of the request that the response
  carries, which after a redirect is not the URL given.
\<close>

theorem scrapeImages_results:
  assumes "reachable c s"
  shows "list_all (\<lambda>d. list_ex (\<lambda>i. task_result c i = Some d) [0..<length (cfg_urls c)]) (results s)
    \<and> (length (tasks s) = length (cfg_urls c) \<and> list_all (\<lambda>(url, pc). is_Done pc) (tasks s) \<longrightarrow>
         length (results s) + failures c = length (cfg_urls c))
    \<and> (\<forall>r. main s = Returned r \<longrightarrow> r = results s \<and> length r + failures c = length (cfg_urls c))
    \<and> (\<forall>html_Parse i d. cfg_parser c = GetMediaData html_Parse \<and> i < length (cfg_urls c)
           \<and> task_result c i = Some d \<longrightarrow>
         (\<exists>resp. cfg_makeRequest c i (cfg_urls c ! i) = Return (Inr resp)
            \<and> URL d = req_URL (resp_Request resp) \<and> StatusCode d = resp_StatusCode resp))"
proof -
  have a: "list_all (\<lambda>d. list_ex (\<lambda>i. task_result c i = Some d) [0..<length (cfg_urls c)]) (results s)"
    using results_inv_reachable [OF assms] by (simp add: results_inv_def)
  have b: "length (results s) + failures c = length (cfg_urls c)"
    if "length (tasks s) = length (cfg_urls c)" "list_all (\<lambda>(url, pc). is_Done pc) (tasks s)"
    using all_done_results [OF assms that] .
  have c: "r = results s \<and> length r + failures c = length (cfg_urls c)" if "main s = Returned r" for r
    using returned_results [OF assms that] by auto
  have d: "\<exists>resp. cfg_makeRequest c i (cfg_urls c ! i) = Return (Inr resp)
            \<and> URL d = req_URL (resp_Request resp) \<and> StatusCode d = resp_StatusCode resp"
    if "cfg_parser c = GetMediaData html_Parse" "task_result c i = Some d" for html_Parse i d
    using task_result_GetMediaData [OF that] .
  show ?thesis
  proof (intro conjI allI impI)
    show "list_all (\<lambda>d. list_ex (\<lambda>i. task_result c i = Some d) [0..<length (cfg_urls c)]) (results s)"
      by (rule a)
  next
    assume h: "length (tasks s) = length (cfg_urls c) \<and> list_all (\<lambda>(url, pc). is_Done pc) (tasks s)"
    show "length (results s) + failures c = length (cfg_urls c)"
      using h by (intro b) simp_all
  next
    fix r assume "main s = Returned r"
    then show "r = results s" using c [of r] by blast
  next
    fix r assume "main s = Returned r"
    then show "length r + failures c = length (cfg_urls c)" using c [of r] by blast
  next
    fix html_Parse i d
    assume h: "cfg_parser c = GetMediaData html_Parse \<and> i < length (cfg_urls c)
      \<and> task_result c i = Some d"
    show "\<exists>resp. cfg_makeRequest c i (cfg_urls c ! i) = Return (Inr resp)
            \<and> URL d = req_URL (resp_Request resp) \<and> StatusCode d = resp_StatusCode resp"
      using h by (intro d [of html_Parse]) simp_all
  qed
qed

theorem scrapeImages_results_witness:
  "\<exists>s. scrapeImages (ex_config [''http://a/'', ''http://down/'', ''http://old/''] 1) ex_sched_all = Some s
     \<and> length (tasks s) = 3 \<and> list_all (\<lambda>(url, pc). is_Done pc) (tasks s)
     \<and> failures (ex_config [''http://a/'', ''http://down/'', ''http://old/''] 1) = 1
     \<and> length (results s) = 2
     \<and> map URL (results s) = [''http://a/'', ''http://new/'']
     \<and> main s = Wait 2
     \<and> stuck (ex_config [''http://a/'', ''http://down/'', ''http://old/''] 1) s"
proof -
  let ?c = "ex_config [''http://a/'', ''http://down/'', ''http://old/''] 1"
  have f: "failures ?c = 1"
    by (simp add: ex_run_defs ex_result_defs)
  have "\<exists>s. scrapeImages ?c ex_sched_all = Some s
     \<and> length (tasks s) = 3 \<and> list_all (\<lambda>(url, pc). is_Done pc) (tasks s)
     \<and> map URL (results s) = [''http://a/'', ''http://new/'']
     \<and> main s = Wait 2 \<and> stuck ?c s"
    by (simp add: ex_sched_all_def ex_run_defs ex_result_defs)
  then obtain s where s: "scrapeImages ?c ex_sched_all = Some s"
     "length (tasks s) = 3" "list_all (\<lambda>(url, pc). is_Done pc) (tasks s)"
     "map URL (results s) = [''http://a/'', ''http://new/'']"
     "main s = Wait 2" "stuck ?c s"
    by (elim exE conjE) (rule that)
  have r: "reachable ?c s" using s(1) by (rule scrapeImages_reachable)
  have l: "length (cfg_urls ?c) = 3" by (simp add: ex_config_def)
  have "length (results s) + failures ?c = length (cfg_urls ?c)"
    using scrapeImages_results [OF r, THEN conjunct2, THEN conjunct1] s(2,3) l by simp
  then have n: "length (results s) = 2" using f l by simp
  show ?thesis
    by (intro exI [of _ s] conjI; fact)
qed

text \<open>
  A run without any failure: the one URL given redirects, the call returns one record,
  and the \<open>URL\<close> of the record is not among the URLs given.
\<close>

theorem scrapeImages_redirect_counterexample:
  "\<exists>s r. scrapeImages (ex_config [''http://old/''] 1)
            [Main, Main, Task 0, Task 0, Task 0, Task 0, Task 0, Task 0, Task 0, Task 0, Main, Main]
          = Some s
     \<and> main s = Returned r
     \<and> failures (ex_config [''http://old/''] 1) = 0
     \<and> map URL r = [''http://new/'']
     \<and> ''http://new/'' \<notin> set (cfg_urls (ex_config [''http://old/''] 1))"
  by (simp add: ex_run_defs ex_result_defs)

end
